theory Spec2Isabelle
  imports Main "HOL-Library.AList" "HOL-Library.Sublist" "HOL-Library.Word"
begin

unbundle bit_operations_syntax

section \<open>PHP and JavaScript primitives used by the sources\<close>

text \<open>
  PHP strings are byte strings; they are modelled as \<open>string\<close>.  \<open>empty($s)\<close> and the
  truth value of a string in a condition are the same test: the empty string and the
  string \<open>"0"\<close> are falsy.
\<close>

definition php_empty :: "string \<Rightarrow> bool" where
  "php_empty s = (s = [] \<or> s = ''0'')"

text \<open>\<open>strtolower\<close>: bytes \<open>A\<close>..\<open>Z\<close> are mapped to \<open>a\<close>..\<open>z\<close>, all other bytes are kept.\<close>

definition lower_char :: "char \<Rightarrow> char" where
  "lower_char c =
     (let n = (of_char c :: nat) in if 65 \<le> n \<and> n \<le> 90 then char_of (n + 32) else c)"

definition strtolower :: "string \<Rightarrow> string" where
  "strtolower s = map lower_char s"

text \<open>
  A stored file of the \<open>FileStorage\<close> class as its readers see it: \<open>exists\<close> is false for
  \<open>Missing\<close>; \<open>read\<close> throws for \<open>Missing\<close> (file not found) and for \<open>Garbled\<close> (cannot
  open, cannot lock, invalid JSON) and returns the decoded content of \<open>Holds\<close>.
\<close>

datatype 'a stored = Missing | Garbled | Holds 'a

text \<open>
  How a call can end without its result: a thrown \<open>Exception\<close> with its message, or a
  read of an array position that does not exist.
\<close>

datatype failure = Exception string | UndefinedOffset

section \<open>ConsentLogger\<close>

type_synonym consent_state = "(string \<times> bool) list"

text \<open>
  One line of \<open>consent/consent-log.jsonl\<close>.  The timestamp is kept as epoch seconds:
  \<open>log\<close> writes it with \<open>date('c')\<close> and \<open>getStats\<close> reads it back with \<open>strtotime\<close>.
\<close>

record log_entry =
  timestamp :: int
  sessionId :: string
  consentState :: consent_state
  widgetVersion :: string
  policyVersion :: string
  metadata :: "(string \<times> string) list"

record cat_count =
  accepted :: nat
  rejected :: nat

record stats =
  total :: nat
  byCategory :: "(string \<times> cat_count) list"
  byDay :: "(string \<times> nat) list"
  acceptedAll :: nat
  rejectedAll :: nat
  customized :: nat

text \<open>
  \<open>getStats\<close> has three shapes of result: \<open>null\<close> when the log cannot be read, the short
  array without the three consent-type counters when the log is empty, and the full
  statistics otherwise.
\<close>

datatype stats_result = StatsNull | StatsEmpty | Stats stats

text \<open>The log file: \<open>readLines\<close> throws when it cannot be opened or locked.\<close>

record log_storage =
  log_lines :: "log_entry list"
  readable :: bool
  appendable :: bool

definition cat_entry :: "(string \<times> cat_count) list \<Rightarrow> string \<Rightarrow> cat_count" where
  "cat_entry bc category =
     (case map_of bc category of None \<Rightarrow> \<lparr>accepted = 0, rejected = 0\<rparr> | Some c \<Rightarrow> c)"

text \<open>
  The inner \<open>foreach ($consentState as $category => $accepted)\<close> of \<open>getStats\<close>, carrying
  \<open>$stats['byCategory']\<close>, \<open>$allAccepted\<close> and \<open>$allRejected\<close>.
\<close>

fun scan_consent ::
  "consent_state \<Rightarrow> (string \<times> cat_count) list \<Rightarrow> bool \<Rightarrow> bool
    \<Rightarrow> (string \<times> cat_count) list \<times> bool \<times> bool" where
  "scan_consent [] bc allAccepted allRejected = (bc, allAccepted, allRejected)"
| "scan_consent ((category, acc) # rest) bc allAccepted allRejected =
     (let c = cat_entry bc category in
      if acc then
        scan_consent rest (AList.update category (c\<lparr>accepted := accepted c + 1\<rparr>) bc)
          allAccepted False
      else
        scan_consent rest (AList.update category (c\<lparr>rejected := rejected c + 1\<rparr>) bc)
          (if category \<noteq> ''necessary'' then False else allAccepted) allRejected)"

definition bump_day :: "(string \<times> nat) list \<Rightarrow> string \<Rightarrow> (string \<times> nat) list" where
  "bump_day bd day =
     AList.update day ((case map_of bd day of None \<Rightarrow> 0 | Some n \<Rightarrow> n) + 1) bd"

text \<open>
  One iteration of \<open>foreach ($logs as $log)\<close>.  \<open>ymd\<close> stands for \<open>date('Y-m-d', $timestamp)\<close>.
\<close>

definition count_log :: "(int \<Rightarrow> string) \<Rightarrow> int \<Rightarrow> stats \<Rightarrow> log_entry \<Rightarrow> stats" where
  "count_log ymd cutoff st lg =
     (if cutoff > 0 \<and> timestamp lg < cutoff then st
      else
        (case scan_consent (consentState lg) (byCategory st) True True of
           (bc, allAccepted, allRejected) \<Rightarrow>
             (let st1 = st\<lparr>total := total st + 1, byCategory := bc\<rparr>;
                  st2 = (if allAccepted then st1\<lparr>acceptedAll := acceptedAll st1 + 1\<rparr>
                         else if allRejected then st1\<lparr>rejectedAll := rejectedAll st1 + 1\<rparr>
                         else st1\<lparr>customized := customized st1 + 1\<rparr>)
              in st2\<lparr>byDay := bump_day (byDay st2) (ymd (timestamp lg))\<rparr>)))"

definition stats0 :: stats where
  "stats0 = \<lparr>total = 0, byCategory = [], byDay = [], acceptedAll = 0, rejectedAll = 0,
     customized = 0\<rparr>"

text \<open>
  \<open>ConsentLogger::getStats\<close>.  \<open>days_ago d\<close> stands for \<open>strtotime("-d days")\<close>.
\<close>

definition getStats ::
  "(int \<Rightarrow> string) \<Rightarrow> (int \<Rightarrow> int) \<Rightarrow> log_storage \<Rightarrow> int \<Rightarrow> stats_result" where
  "getStats ymd days_ago store days =
     (if \<not> readable store then StatsNull
      else if log_lines store = [] then StatsEmpty
      else
        (let cutoff = (if days > 0 then days_ago days else 0)
         in Stats (foldl (count_log ymd cutoff) stats0 (log_lines store))))"

text \<open>
  The two flags at the end of the inner loop, as predicates of the consent state: no
  category other than \<open>necessary\<close> is rejected; no category is accepted.
\<close>

definition all_accepted :: "consent_state \<Rightarrow> bool" where
  "all_accepted cs = (\<forall>(c, b) \<in> set cs. \<not> b \<longrightarrow> c = ''necessary'')"

definition all_rejected :: "consent_state \<Rightarrow> bool" where
  "all_rejected cs = (\<forall>(c, b) \<in> set cs. \<not> b)"

text \<open>An entry is counted unless a cutoff is set and the entry is older than it.\<close>

definition counted :: "int \<Rightarrow> log_entry \<Rightarrow> bool" where
  "counted cutoff lg = (\<not> (cutoff > 0 \<and> timestamp lg < cutoff))"

section \<open>SHA-256 (PHP \<open>hash('sha256', \<dots>)\<close>)\<close>

text \<open>
  \<open>ConsentLogger::log\<close> replaces a short session identifier by
  \<open>hash('sha256', \<dots>)\<close>, the lowercase hexadecimal SHA-256 digest of a byte string.
  The digest is computed on 32-bit words: the message is padded to a multiple of 64
  bytes, and each 64-byte block updates the eight-word chaining value.
\<close>

type_synonym w32 = "32 word"

definition round_constants :: "w32 list" where
  "round_constants =
    [1116352408, 1899447441, 3049323471, 3921009573, 961987163, 1508970993,
     2453635748, 2870763221, 3624381080, 310598401, 607225278, 1426881987,
     1925078388, 2162078206, 2614888103, 3248222580, 3835390401, 4022224774,
     264347078, 604807628, 770255983, 1249150122, 1555081692, 1996064986,
     2554220882, 2821834349, 2952996808, 3210313671, 3336571891, 3584528711,
     113926993, 338241895, 666307205, 773529912, 1294757372, 1396182291,
     1695183700, 1986661051, 2177026350, 2456956037, 2730485921, 2820302411,
     3259730800, 3345764771, 3516065817, 3600352804, 4094571909, 275423344,
     430227734, 506948616, 659060556, 883997877, 958139571, 1322822218,
     1537002063, 1747873779, 1955562222, 2024104815, 2227730452, 2361852424,
     2428436474, 2756734187, 3204031479, 3329325298]"

record chain =
  ha :: w32
  hb :: w32
  hc :: w32
  hd' :: w32
  he :: w32
  hf :: w32
  hg :: w32
  hh :: w32

definition initial_chain :: chain where
  "initial_chain =
     \<lparr>ha = 1779033703, hb = 3144134277, hc = 1013904242, hd' = 2773480762,
      he = 1359893119, hf = 2600822924, hg = 528734635, hh = 1541459225\<rparr>"

definition sha_ch :: "w32 \<Rightarrow> w32 \<Rightarrow> w32 \<Rightarrow> w32" where
  "sha_ch x y z = (x AND y) XOR (NOT x AND z)"

definition sha_maj :: "w32 \<Rightarrow> w32 \<Rightarrow> w32 \<Rightarrow> w32" where
  "sha_maj x y z = (x AND y) XOR (x AND z) XOR (y AND z)"

definition big_sigma0 :: "w32 \<Rightarrow> w32" where
  "big_sigma0 x = word_rotr 2 x XOR word_rotr 13 x XOR word_rotr 22 x"

definition big_sigma1 :: "w32 \<Rightarrow> w32" where
  "big_sigma1 x = word_rotr 6 x XOR word_rotr 11 x XOR word_rotr 25 x"

definition small_sigma0 :: "w32 \<Rightarrow> w32" where
  "small_sigma0 x = word_rotr 7 x XOR word_rotr 18 x XOR drop_bit 3 x"

definition small_sigma1 :: "w32 \<Rightarrow> w32" where
  "small_sigma1 x = word_rotr 17 x XOR word_rotr 19 x XOR drop_bit 10 x"

text \<open>Padding: the byte \<open>0x80\<close>, zero bytes up to 56 modulo 64, the bit length in 8 bytes.\<close>

definition be_bytes :: "nat \<Rightarrow> nat \<Rightarrow> nat list" where
  "be_bytes k n = map (\<lambda>i. (n div 256 ^ (k - 1 - i)) mod 256) [0..<k]"

definition pad_message :: "nat list \<Rightarrow> nat list" where
  "pad_message bs =
     bs @ [128] @ replicate ((119 - length bs mod 64) mod 64) 0 @ be_bytes 8 (8 * length bs)"

definition word_of_bytes :: "nat list \<Rightarrow> w32" where
  "word_of_bytes bs = of_nat (foldl (\<lambda>acc b. acc * 256 + b) 0 bs)"

fun chop :: "nat \<Rightarrow> nat \<Rightarrow> 'a list \<Rightarrow> 'a list list" where
  "chop 0 n xs = []"
| "chop (Suc k) n xs = take n xs # chop k n (drop n xs)"

definition blocks_of :: "nat list \<Rightarrow> w32 list list" where
  "blocks_of bs = map (\<lambda>blk. map word_of_bytes (chop 16 4 blk)) (chop (length bs div 64) 64 bs)"

text \<open>The message schedule: sixteen words of the block, extended to sixty-four.\<close>

definition extend_schedule :: "w32 list \<Rightarrow> w32 list" where
  "extend_schedule w =
     (let t = length w
      in w @ [small_sigma1 (w ! (t - 2)) + w ! (t - 7) + small_sigma0 (w ! (t - 15)) + w ! (t - 16)])"

definition schedule :: "w32 list \<Rightarrow> w32 list" where
  "schedule blk = (extend_schedule ^^ 48) blk"

definition sha_round :: "chain \<Rightarrow> w32 \<times> w32 \<Rightarrow> chain" where
  "sha_round s kw =
     (let t1 = hh s + big_sigma1 (he s) + sha_ch (he s) (hf s) (hg s) + fst kw + snd kw;
          t2 = big_sigma0 (ha s) + sha_maj (ha s) (hb s) (hc s)
      in \<lparr>ha = t1 + t2, hb = ha s, hc = hb s, hd' = hc s,
          he = hd' s + t1, hf = he s, hg = hf s, hh = hg s\<rparr>)"

definition compress :: "chain \<Rightarrow> w32 list \<Rightarrow> chain" where
  "compress s blk =
     (let r = foldl sha_round s (zip round_constants (schedule blk))
      in \<lparr>ha = ha s + ha r, hb = hb s + hb r, hc = hc s + hc r, hd' = hd' s + hd' r,
          he = he s + he r, hf = hf s + hf r, hg = hg s + hg r, hh = hh s + hh r\<rparr>)"

definition hex_digit :: "nat \<Rightarrow> char" where
  "hex_digit d = (if d < 10 then char_of (48 + d) else char_of (87 + d))"

definition hex32 :: "w32 \<Rightarrow> string" where
  "hex32 w = map (\<lambda>i. hex_digit ((unat w div 16 ^ (7 - i)) mod 16)) [0..<8]"

definition sha256_hex :: "string \<Rightarrow> string" where
  "sha256_hex msg =
     (let s = foldl compress initial_chain (blocks_of (pad_message (map of_char msg)))
      in hex32 (ha s) @ hex32 (hb s) @ hex32 (hc s) @ hex32 (hd' s)
         @ hex32 (he s) @ hex32 (hf s) @ hex32 (hg s) @ hex32 (hh s))"

section \<open>ConsentLogger::log\<close>

text \<open>
  The request variables the logger reads from \<open>$_SERVER\<close>; either may be unset.
\<close>

record server_env =
  remote_addr :: "string option"
  http_user_agent :: "string option"

text \<open>
  \<open>array_merge\<close> on string keys: a key of the second array overwrites the value of the
  same key in the first and keeps its place; a new key is appended.
\<close>

definition array_merge ::
  "(string \<times> string) list \<Rightarrow> (string \<times> string) list \<Rightarrow> (string \<times> string) list" where
  "array_merge xs ys = fold (\<lambda>(k, v). AList.update k v) ys xs"

text \<open>
  The replacement of the session identifier.  In
  \<open>hash('sha256', $sessionId . $_SERVER['REMOTE_ADDR'] ?? 'unknown')\<close> the concatenation
  binds tighter than \<open>??\<close>, so the hashed string is the identifier followed by the remote
  address, and an unset address contributes the empty string.
\<close>

definition logged_session_id :: "server_env \<Rightarrow> string \<Rightarrow> string" where
  "logged_session_id env sid =
     (if length sid < 32
      then sha256_hex (sid @ (case remote_addr env of None \<Rightarrow> [] | Some a \<Rightarrow> a))
      else sid)"

definition log_record ::
  "server_env \<Rightarrow> int \<Rightarrow> consent_state \<Rightarrow> string \<Rightarrow> string \<Rightarrow> string
    \<Rightarrow> (string \<times> string) list \<Rightarrow> log_entry" where
  "log_record env now cs sid wv pv md =
     \<lparr>timestamp = now,
      sessionId = logged_session_id env sid,
      consentState = cs,
      widgetVersion = wv,
      policyVersion = pv,
      metadata = array_merge
        [(''userAgent'', case http_user_agent env of None \<Rightarrow> ''unknown'' | Some u \<Rightarrow> u),
         (''jurisdiction'', case map_of md ''jurisdiction'' of None \<Rightarrow> ''unknown'' | Some j \<Rightarrow> j)]
        md\<rparr>"

text \<open>
  \<open>ConsentLogger::log\<close>: an empty consent state throws; a failed append is caught and
  reported by the result \<open>false\<close>; otherwise the entry becomes the last line of the log.
  The result is the returned boolean and the log storage after the call.
\<close>

definition log ::
  "server_env \<Rightarrow> int \<Rightarrow> log_storage \<Rightarrow> consent_state \<Rightarrow> string \<Rightarrow> string \<Rightarrow> string
    \<Rightarrow> (string \<times> string) list \<Rightarrow> failure + bool \<times> log_storage" where
  "log env now store cs sid wv pv md =
     (if cs = [] then Inl (Exception ''Invalid consent state'')
      else if appendable store
        then Inr (True, store\<lparr>log_lines := log_lines store @ [log_record env now cs sid wv pv md]\<rparr>)
        else Inr (False, store))"

section \<open>CookieDatabase: records, index and matcher\<close>

text \<open>One normalized row of the Open Cookie Database, as \<open>updateDatabase\<close> stores it.\<close>

record cookie =
  ck_id :: string
  ck_platform :: string
  ck_category :: string
  ck_name :: string
  ck_domain :: string
  ck_description :: string
  ck_retention :: string
  ck_dataController :: string
  ck_privacyPortal :: string
  ck_isWildcard :: bool

record wildcard_ref =
  wc_pattern :: string
  wc_index :: nat

record indexes =
  byName :: "string \<rightharpoonup> nat list"
  byDomain :: "string \<rightharpoonup> nat list"
  wildcards :: "wildcard_ref list"

text \<open>
  The cached database (\<open>cookies/database.json\<close>, and \<open>$this->database\<close> once loaded).
  The fields \<open>version\<close>, \<open>source\<close> and \<open>stats\<close> are not read by the matcher and are left out.
\<close>

record database =
  db_lastUpdated :: int
  db_cookies :: "cookie list"
  db_indexes :: indexes

text \<open>An entry of \<open>cookies/overrides.json\<close>, and the file's content.\<close>

record override =
  ov_name :: string
  ov_domain :: string
  ov_category :: string
  ov_reason :: string
  ov_timestamp :: int

record overrides_doc =
  od_overrides :: "string \<rightharpoonup> override"
  od_lastModified :: "int option"

text \<open>
  \<open>buildIndexes\<close>: one pass over the cookies with their positions.  A wildcard cookie goes
  to the end of \<open>wildcards\<close>, any other cookie to the end of its \<open>byName\<close> bucket; a cookie
  with a non-empty domain also goes to the end of its \<open>byDomain\<close> bucket.
\<close>

definition bucket_add :: "(string \<rightharpoonup> nat list) \<Rightarrow> string \<Rightarrow> nat \<Rightarrow> (string \<rightharpoonup> nat list)" where
  "bucket_add m k i = m(k \<mapsto> (case m k of None \<Rightarrow> [] | Some l \<Rightarrow> l) @ [i])"

definition index_cookie :: "nat \<Rightarrow> cookie \<Rightarrow> indexes \<Rightarrow> indexes" where
  "index_cookie i c ix =
     (let name = strtolower (ck_name c);
          domain = strtolower (ck_domain c);
          ix1 = (if ck_isWildcard c
                 then ix\<lparr>wildcards := wildcards ix @ [\<lparr>wc_pattern = name, wc_index = i\<rparr>]\<rparr>
                 else ix\<lparr>byName := bucket_add (byName ix) name i\<rparr>)
      in if \<not> php_empty domain
         then ix1\<lparr>byDomain := bucket_add (byDomain ix1) domain i\<rparr>
         else ix1)"

fun index_from :: "nat \<Rightarrow> cookie list \<Rightarrow> indexes \<Rightarrow> indexes" where
  "index_from i [] ix = ix"
| "index_from i (c # cs) ix = index_from (Suc i) cs (index_cookie i c ix)"

definition buildIndexes :: "cookie list \<Rightarrow> indexes" where
  "buildIndexes cookies =
     index_from 0 cookies \<lparr>byName = Map.empty, byDomain = Map.empty, wildcards = []\<rparr>"

subsection \<open>wildcardMatch: the pattern as a regular expression\<close>

definition backslash :: char where
  "backslash = CHR 0x5C"

text \<open>
  \<open>preg_quote($pattern, '/')\<close> puts a backslash before each of the characters
  \<open>. \ + * ? [ ^ ] $ ( ) { } = ! < > | : - #\<close> and before the delimiter \<open>/\<close>, and writes a
  NUL byte as a backslash and three zeros.
\<close>

definition preg_special :: "char list" where
  "preg_special = [CHR ''.'', backslash, CHR ''+'', CHR ''*'', CHR ''?'', CHR ''['', CHR ''^'',
     CHR '']'', CHR ''$'', CHR ''('', CHR '')'', CHR ''{'', CHR ''}'', CHR ''='', CHR ''!'',
     CHR ''<'', CHR ''>'', CHR ''|'', CHR '':'', CHR ''-'', CHR ''#'', CHR ''/'']"

definition preg_quote :: "string \<Rightarrow> string" where
  "preg_quote s =
     concat (map (\<lambda>c. if c = CHR 0x00 then [backslash, CHR ''0'', CHR ''0'', CHR ''0'']
                       else if c \<in> set preg_special then [backslash, c]
                       else [c]) s)"

text \<open>\<open>str_replace\<close> of a single character by a string.\<close>

definition str_replace_char :: "char \<Rightarrow> string \<Rightarrow> string \<Rightarrow> string" where
  "str_replace_char c r s = concat (map (\<lambda>x. if x = c then r else [x]) s)"

text \<open>
  The text between \<open>/^\<close> and \<open>$/\<close>: \<open>str_replace(['*', '?'], ['.*', '.'], preg_quote(\<dots>))\<close>
  replaces every star first and every question mark afterwards.
\<close>

definition regex_body :: "string \<Rightarrow> string" where
  "regex_body pattern =
     str_replace_char (CHR ''?'') ''.'' (str_replace_char (CHR ''*'') ''.*'' (preg_quote pattern))"

text \<open>
  The regular expressions that \<open>regex_body\<close> can produce are sequences of items: a literal
  character (written as itself, or after a backslash), possibly followed by the
  quantifier \<open>*\<close>.  \<open>regex_items\<close> reads such an expression; it gives \<open>None\<close> for any text
  outside this fragment.
\<close>

datatype item = One char | Many char

definition alnum :: "char \<Rightarrow> bool" where
  "alnum c =
     (let n = (of_char c :: nat)
      in (48 \<le> n \<and> n \<le> 57) \<or> (65 \<le> n \<and> n \<le> 90) \<or> (97 \<le> n \<and> n \<le> 122))"

fun regex_items :: "string \<Rightarrow> item list option" where
  "regex_items [] = Some []"
| "regex_items (c # cs) =
     (if c = backslash then
        (case cs of
           [] \<Rightarrow> None
         | e # r \<Rightarrow>
             if e = CHR ''0'' then
               (case r of
                  z1 # z2 # r' \<Rightarrow>
                    if z1 = CHR ''0'' \<and> z2 = CHR ''0''
                    then map_option (Cons (One (CHR 0x00))) (regex_items r')
                    else None
                | _ \<Rightarrow> None)
             else if alnum e then None
             else
               (case r of
                  q # r' \<Rightarrow>
                    if q = CHR ''*'' then map_option (Cons (Many e)) (regex_items r')
                    else map_option (Cons (One e)) (regex_items r)
                | [] \<Rightarrow> Some [One e]))
      else if c \<in> set preg_special then None
      else map_option (Cons (One c)) (regex_items cs))"

text \<open>
  Matching between \<open>^\<close> and \<open>$\<close>.  Without the \<open>D\<close> modifier, \<open>$\<close> also matches before a
  newline that ends the subject.
\<close>

fun match_items :: "item list \<Rightarrow> string \<Rightarrow> bool" where
  "match_items [] s = (s = [] \<or> s = [CHR 0x0A])"
| "match_items (One c # its) s =
     (case s of [] \<Rightarrow> False | x # xs \<Rightarrow> x = c \<and> match_items its xs)"
| "match_items (Many c # its) s =
     (match_items its s
      \<or> (case s of [] \<Rightarrow> False | x # xs \<Rightarrow> x = c \<and> match_items (Many c # its) xs))"

text \<open>
  \<open>CookieDatabase::wildcardMatch\<close>.  \<open>preg_match\<close> does not return 1 for an expression it
  cannot compile.
\<close>

definition wildcardMatch :: "string \<Rightarrow> string \<Rightarrow> bool" where
  "wildcardMatch name pattern =
     (case regex_items (regex_body (strtolower pattern)) of
        None \<Rightarrow> False
      | Some its \<Rightarrow> match_items its (strtolower name))"

text \<open>
  What a character of the pattern stands for in the expression that \<open>regex_body\<close>
  makes (\<open>wildcardMatch_items\<close> below): the backslash that \<open>preg_quote\<close> has put before a
  star or a question mark stays in front of the dot that replaces it.
\<close>

definition pattern_item :: "char \<Rightarrow> item" where
  "pattern_item c =
     (if c = CHR ''*'' then Many (CHR ''.'') else if c = CHR ''?'' then One (CHR ''.'') else One c)"

subsection \<open>domainMatches\<close>

text \<open>\<open>substr($s, -$n)\<close>: the last \<open>n\<close> bytes, the whole string when it is shorter or \<open>n\<close> is 0.\<close>

definition substr_last :: "string \<Rightarrow> nat \<Rightarrow> string" where
  "substr_last s n = (if n = 0 then s else drop (length s - n) s)"

definition domainMatches :: "string \<Rightarrow> string \<Rightarrow> bool" where
  "domainMatches domain pattern =
     (let d = strtolower domain; p = strtolower pattern
      in if d = p then True
         else if (case p of [] \<Rightarrow> False | c # _ \<Rightarrow> c = CHR ''.'')
           then substr_last d (length p) = p
           else substr_last d (length p + 1) = CHR ''.'' # p)"

subsection \<open>categorize: the resolution order\<close>

datatype confidence = ConfOverride | ConfExact | ConfWildcard | ConfDomain | ConfNone

datatype matched = MatchedNull | MatchedOverride override | MatchedCookie cookie

record result =
  category :: string
  confidence :: confidence
  matched :: matched

text \<open>
  Reading \<open>$this->database['cookies'][$idx]\<close>.  For a position outside the array PHP
  warns and goes on with \<open>null\<close>; the model stops there with \<open>UndefinedOffset\<close>.  The
  indexes that \<open>buildIndexes\<close> makes only hold positions of the array
  (\<open>indexes_ok_make_database\<close> below).
\<close>

definition cookie_at :: "database \<Rightarrow> nat \<Rightarrow> failure + cookie" where
  "cookie_at db i =
     (if i < length (db_cookies db) then Inr (db_cookies db ! i) else Inl UndefinedOffset)"

definition first_index :: "nat list \<Rightarrow> failure + nat" where
  "first_index l = (case l of [] \<Rightarrow> Inl UndefinedOffset | i # _ \<Rightarrow> Inr i)"

definition cookie_result :: "confidence \<Rightarrow> cookie \<Rightarrow> result" where
  "cookie_result conf c =
     \<lparr>category = ck_category c, confidence = conf, matched = MatchedCookie c\<rparr>"

definition no_match :: result where
  "no_match = \<lparr>category = ''uncategorized'', confidence = ConfNone, matched = MatchedNull\<rparr>"

text \<open>
  The \<open>foreach ($indexes as $idx)\<close> of the exact stage; \<open>None\<close> when the loop ends without
  a \<open>return\<close>.
\<close>

fun exact_domain_loop :: "database \<Rightarrow> string \<Rightarrow> nat list \<Rightarrow> (failure + result) option" where
  "exact_domain_loop db domain [] = None"
| "exact_domain_loop db domain (idx # rest) =
     (case cookie_at db idx of
        Inl e \<Rightarrow> Some (Inl e)
      | Inr c \<Rightarrow>
          (let cookieDomain = strtolower (ck_domain c)
           in if cookieDomain = domain \<or> domainMatches domain cookieDomain
              then Some (Inr (cookie_result ConfExact c))
              else exact_domain_loop db domain rest))"

text \<open>The \<open>foreach\<close> over \<open>wildcards\<close>, with its \<open>continue\<close> on a domain mismatch.\<close>

fun wildcard_loop ::
  "database \<Rightarrow> string \<Rightarrow> string \<Rightarrow> wildcard_ref list \<Rightarrow> (failure + result) option" where
  "wildcard_loop db name domain [] = None"
| "wildcard_loop db name domain (w # ws) =
     (if wildcardMatch name (wc_pattern w) then
        (case cookie_at db (wc_index w) of
           Inl e \<Rightarrow> Some (Inl e)
         | Inr c \<Rightarrow>
             if \<not> php_empty domain \<and> \<not> php_empty (ck_domain c)
                \<and> strtolower (ck_domain c) \<noteq> domain
                \<and> \<not> domainMatches domain (strtolower (ck_domain c))
             then wildcard_loop db name domain ws
             else Some (Inr (cookie_result ConfWildcard c)))
      else wildcard_loop db name domain ws)"

definition override_key :: "string \<Rightarrow> string \<Rightarrow> string" where
  "override_key name domain = name @ (if \<not> php_empty domain then CHR ''@'' # domain else [])"

text \<open>
  The body of \<open>categorize\<close> once the database is loaded, for the overrides that
  \<open>getOverrides\<close> returned.
\<close>

definition resolve ::
  "database \<Rightarrow> (string \<rightharpoonup> override) \<Rightarrow> string \<Rightarrow> string \<Rightarrow> failure + result" where
  "resolve db overrides name0 domain0 =
     (let name = strtolower name0;
          domain = strtolower domain0;
          overrideKey = override_key name domain
      in case overrides overrideKey of
           Some ov \<Rightarrow>
             Inr \<lparr>category = ov_category ov, confidence = ConfOverride,
                  matched = MatchedOverride ov\<rparr>
         | None \<Rightarrow>
             (case byName (db_indexes db) name of
                Some idxs \<Rightarrow>
                  (case (if \<not> php_empty domain then exact_domain_loop db domain idxs else None) of
                     Some r \<Rightarrow> r
                   | None \<Rightarrow>
                       (case first_index idxs of
                          Inl e \<Rightarrow> Inl e
                        | Inr i \<Rightarrow> map_sum id (cookie_result ConfExact) (cookie_at db i)))
              | None \<Rightarrow>
                  (case wildcard_loop db name domain (wildcards (db_indexes db)) of
                     Some r \<Rightarrow> r
                   | None \<Rightarrow>
                       (case (if \<not> php_empty domain then byDomain (db_indexes db) domain
                              else None) of
                          Some idxs \<Rightarrow>
                            (case first_index idxs of
                               Inl e \<Rightarrow> Inl e
                             | Inr i \<Rightarrow> map_sum id (cookie_result ConfDomain) (cookie_at db i))
                        | None \<Rightarrow> Inr no_match))))"

section \<open>CookieDatabase: storage, loading and overrides\<close>

text \<open>
  What a \<open>CookieDatabase\<close> object works on: its field \<open>$this->database\<close>, the two files
  under \<open>cookies/\<close>, the outcome of fetching the CSV (\<open>None\<close> when \<open>file_get_contents\<close>
  returns false, otherwise the normalized rows of the lines that have all columns, in
  file order), and whether \<open>FileStorage::write\<close> succeeds.
\<close>

record cdb =
  database :: "database option"
  cacheFile :: "database stored"
  overridesFile :: "overrides_doc stored"
  csv_rows :: "cookie list option"
  writable :: bool

text \<open>The array \<open>$cacheData\<close> that \<open>updateDatabase\<close> builds from the cookies it kept.\<close>

definition make_database :: "int \<Rightarrow> cookie list \<Rightarrow> database" where
  "make_database now cookies =
     \<lparr>db_lastUpdated = now, db_cookies = cookies, db_indexes = buildIndexes cookies\<rparr>"

text \<open>
  \<open>updateDatabase($forceRefresh)\<close> at time \<open>now\<close> (seconds).  A cache younger than seven
  days ends the call early; a failed download throws; rows without a name are skipped;
  the new database is written to the cache and kept in \<open>$this->database\<close>.
\<close>

definition updateDatabase :: "int \<Rightarrow> bool \<Rightarrow> cdb \<Rightarrow> (failure + bool) \<times> cdb" where
  "updateDatabase now forceRefresh w =
     (if \<not> forceRefresh
         \<and> (case cacheFile w of Holds cached \<Rightarrow> now - db_lastUpdated cached < 7 * 24 * 60 * 60
             | _ \<Rightarrow> False)
      then (Inr True, w)
      else
        (case csv_rows w of
           None \<Rightarrow> (Inl (Exception ''Failed to download Open Cookie Database''), w)
         | Some rows \<Rightarrow>
             (let cookies = filter (\<lambda>c. \<not> php_empty (ck_name c)) rows;
                  cacheData = make_database now cookies
              in if writable w
                 then (Inr True, w\<lparr>cacheFile := Holds cacheData, database := Some cacheData\<rparr>)
                 else (Inl (Exception ''Cannot write to file: cookies/database.json''), w))))"

text \<open>
  \<open>loadDatabase\<close>: a loaded database is kept; without a cache file the call is
  \<open>updateDatabase()\<close>, whose exception is not caught here; a cache file that cannot be
  read gives \<open>false\<close>.
\<close>

definition loadDatabase :: "int \<Rightarrow> cdb \<Rightarrow> (failure + bool) \<times> cdb" where
  "loadDatabase now w =
     (if database w \<noteq> None then (Inr True, w)
      else
        (case cacheFile w of
           Missing \<Rightarrow> updateDatabase now False w
         | Holds d \<Rightarrow> (Inr True, w\<lparr>database := Some d\<rparr>)
         | Garbled \<Rightarrow> (Inr False, w)))"

text \<open>\<open>getOverrides\<close>: the stored overrides, or none when the file cannot be read.\<close>

definition getOverrides :: "cdb \<Rightarrow> (string \<rightharpoonup> override)" where
  "getOverrides w = (case overridesFile w of Holds d \<Rightarrow> od_overrides d | _ \<Rightarrow> Map.empty)"

text \<open>
  \<open>categorize($name, $domain)\<close>: the result of \<open>loadDatabase\<close> is not looked at, only
  \<open>$this->database\<close> afterwards.
\<close>

definition categorize :: "int \<Rightarrow> string \<Rightarrow> string \<Rightarrow> cdb \<Rightarrow> (failure + result) \<times> cdb" where
  "categorize now name domain w =
     (case loadDatabase now w of
        (Inl e, w') \<Rightarrow> (Inl e, w')
      | (Inr _, w') \<Rightarrow>
          (case database w' of
             None \<Rightarrow> (Inr no_match, w')
           | Some db \<Rightarrow> (resolve db (getOverrides w') name domain, w')))"

text \<open>
  \<open>addOverride($name, $domain, $category, $reason)\<close> at time \<open>now\<close>: the entry is stored
  under the lowercased key, replacing what was there; a failed write throws.
\<close>

definition addOverride ::
  "int \<Rightarrow> string \<Rightarrow> string \<Rightarrow> string \<Rightarrow> string \<Rightarrow> cdb \<Rightarrow> (failure + bool) \<times> cdb" where
  "addOverride now name domain cat reason w =
     (let data = (case overridesFile w of
                    Holds d \<Rightarrow> d
                  | _ \<Rightarrow> \<lparr>od_overrides = Map.empty, od_lastModified = None\<rparr>);
          key = strtolower name @ (if \<not> php_empty domain then CHR ''@'' # strtolower domain else []);
          entry = \<lparr>ov_name = name, ov_domain = domain, ov_category = cat, ov_reason = reason,
                   ov_timestamp = now\<rparr>;
          data' = data\<lparr>od_overrides := (od_overrides data)(key \<mapsto> entry),
                       od_lastModified := Some now\<rparr>
      in if writable w
         then (Inr True, w\<lparr>overridesFile := Holds data'\<rparr>)
         else (Inl (Exception ''Cannot write to file: cookies/overrides.json''), w))"

section \<open>The resolution order as the specification words it\<close>

text \<open>
  The stages of the Category Matcher, each as a search of its own: the override stored
  under the lowercased key; among the cookies registered under the name, the first whose
  domain equals or contains the supplied domain, else the first one; the first wildcard
  in registration order whose pattern matches and whose cookie passes the domain filter;
  the first cookie registered under the supplied domain.  A domain is supplied when it is
  not empty.  \<open>domain_contains p d\<close>: \<open>p\<close> is \<open>d\<close>, or \<open>p\<close> starts with a dot and \<open>d\<close> ends
  with \<open>p\<close>, or \<open>d\<close> ends with a dot followed by \<open>p\<close>.
\<close>

definition domain_contains :: "string \<Rightarrow> string \<Rightarrow> bool" where
  "domain_contains p d =
     (p = d \<or> (case p of
                 c # _ \<Rightarrow> if c = CHR ''.'' then suffix p d else suffix (CHR ''.'' # p) d
               | [] \<Rightarrow> suffix ''.'' d))"

definition stage_override :: "(string \<rightharpoonup> override) \<Rightarrow> string \<Rightarrow> string \<Rightarrow> override option" where
  "stage_override overrides name domain =
     overrides (if php_empty domain then name else name @ ''@'' @ domain)"

definition stage_exact :: "database \<Rightarrow> string \<Rightarrow> string \<Rightarrow> cookie option" where
  "stage_exact db name domain =
     (case byName (db_indexes db) name of
        None \<Rightarrow> None
      | Some idxs \<Rightarrow>
          (let candidates = map (\<lambda>i. db_cookies db ! i) idxs
           in case (if php_empty domain then None
                    else List.find (\<lambda>c. domain_contains (strtolower (ck_domain c)) domain)
                           candidates) of
                Some c \<Rightarrow> Some c
              | None \<Rightarrow> Some (hd candidates)))"

definition stage_wildcard :: "database \<Rightarrow> string \<Rightarrow> string \<Rightarrow> cookie option" where
  "stage_wildcard db name domain =
     map_option (\<lambda>w. db_cookies db ! wc_index w)
       (List.find
          (\<lambda>w. wildcardMatch name (wc_pattern w)
               \<and> (php_empty domain \<or> php_empty (ck_domain (db_cookies db ! wc_index w))
                  \<or> domain_contains (strtolower (ck_domain (db_cookies db ! wc_index w))) domain))
          (wildcards (db_indexes db)))"

definition stage_domain :: "database \<Rightarrow> string \<Rightarrow> cookie option" where
  "stage_domain db domain =
     (if php_empty domain then None
      else map_option (\<lambda>idxs. db_cookies db ! hd idxs) (byDomain (db_indexes db) domain))"

definition classify_spec :: "database \<Rightarrow> (string \<rightharpoonup> override) \<Rightarrow> string \<Rightarrow> string \<Rightarrow> result" where
  "classify_spec db overrides name0 domain0 =
     (let name = strtolower name0; domain = strtolower domain0
      in case stage_override overrides name domain of
           Some ov \<Rightarrow> \<lparr>category = ov_category ov, confidence = ConfOverride,
                        matched = MatchedOverride ov\<rparr>
         | None \<Rightarrow>
         (case stage_exact db name domain of
            Some c \<Rightarrow> \<lparr>category = ck_category c, confidence = ConfExact, matched = MatchedCookie c\<rparr>
          | None \<Rightarrow>
          (case stage_wildcard db name domain of
             Some c \<Rightarrow> \<lparr>category = ck_category c, confidence = ConfWildcard,
                          matched = MatchedCookie c\<rparr>
           | None \<Rightarrow>
           (case stage_domain db domain of
              Some c \<Rightarrow> \<lparr>category = ck_category c, confidence = ConfDomain,
                           matched = MatchedCookie c\<rparr>
            | None \<Rightarrow> \<lparr>category = ''uncategorized'', confidence = ConfNone,
                         matched = MatchedNull\<rparr>))))"

text \<open>
  A database whose indexes only hold positions of its cookie array and have no empty
  bucket, as every database made by \<open>updateDatabase\<close> is.
\<close>

definition indexes_ok :: "database \<Rightarrow> bool" where
  "indexes_ok db =
     ((\<forall>l \<in> ran (byName (db_indexes db)). l \<noteq> [] \<and> (\<forall>i \<in> set l. i < length (db_cookies db)))
      \<and> (\<forall>l \<in> ran (byDomain (db_indexes db)). l \<noteq> [] \<and> (\<forall>i \<in> set l. i < length (db_cookies db)))
      \<and> (\<forall>w \<in> set (wildcards (db_indexes db)). wc_index w < length (db_cookies db)))"

text \<open>
  The same for the indexes during \<open>buildIndexes\<close>, when the positions below \<open>k\<close> have
  been gone through.
\<close>

definition buckets_below :: "(string \<rightharpoonup> nat list) \<Rightarrow> nat \<Rightarrow> bool" where
  "buckets_below m k = (\<forall>l \<in> ran m. l \<noteq> [] \<and> (\<forall>i \<in> set l. i < k))"

definition indexes_below :: "indexes \<Rightarrow> nat \<Rightarrow> bool" where
  "indexes_below ix k =
     (buckets_below (byName ix) k \<and> buckets_below (byDomain ix) k
      \<and> (\<forall>w \<in> set (wildcards ix). wc_index w < k))"

section \<open>The consent widget: document, consent state and events\<close>

text \<open>
  A consent decision maps category names to booleans.  \<open>this.consent.state[category]\<close>
  in a condition is true for a category stored as \<open>true\<close>; for a name the object does not
  hold, the lookup goes on to \<open>Object.prototype\<close>, whose members are functions and
  objects and so count as true.
\<close>

type_synonym decision = "string \<rightharpoonup> bool"

definition object_prototype_keys :: "string list" where
  "object_prototype_keys =
     [''constructor'', ''toString'', ''toLocaleString'', ''valueOf'', ''hasOwnProperty'',
      ''isPrototypeOf'', ''propertyIsEnumerable'', ''__proto__'', ''__defineGetter__'',
      ''__defineSetter__'', ''__lookupGetter__'', ''__lookupSetter__'']"

definition consented :: "decision \<Rightarrow> string \<Rightarrow> bool" where
  "consented st c = (case st c of Some b \<Rightarrow> b | None \<Rightarrow> c \<in> set object_prototype_keys)"

text \<open>The object \<open>this.consent\<close>; the timestamp is the time of the call in milliseconds.\<close>

record consent_record =
  cr_state :: decision
  cr_timestamp :: int
  cr_version :: string

text \<open>
  A script element: its attributes in document order (the property \<open>type\<close> reflects the
  attribute of that name), its text, and whether it has a parent node.
\<close>

record script_node =
  attributes :: "(string \<times> string) list"
  textContent :: string
  parentNode :: bool

definition getAttribute :: "script_node \<Rightarrow> string \<Rightarrow> string option" where
  "getAttribute nd a = map_of (attributes nd) a"

definition setAttribute :: "string \<Rightarrow> string \<Rightarrow> script_node \<Rightarrow> script_node" where
  "setAttribute a v nd = nd\<lparr>attributes := AList.update a v (attributes nd)\<rparr>"

definition removeAttribute :: "string \<Rightarrow> script_node \<Rightarrow> script_node" where
  "removeAttribute a nd = nd\<lparr>attributes := AList.delete a (attributes nd)\<rparr>"

definition script_type :: "script_node \<Rightarrow> string" where
  "script_type nd = (case getAttribute nd ''type'' of None \<Rightarrow> [] | Some v \<Rightarrow> v)"

text \<open>What the widget does that can be observed from outside, in the order it happens.\<close>

record log_request =
  lr_siteId :: string
  lr_sessionId :: string
  lr_consentState :: decision
  lr_widgetVersion :: string
  lr_policyVersion :: string

datatype effect =
    Persisted consent_record
  | PersistFailed
  | LogRequest log_request
  | LogFailed
  | ScriptBlocked nat string
  | ScriptUnblocked nat string
  | ScriptExecuted nat nat string
  | Dispatched string decision

datatype js_error = TypeError

record config =
  blocking_enabled :: bool
  cfg_policyVersion :: "string option"

text \<open>
  The \<open>CMP\<close> object and its surroundings.  Script elements are referred to by number;
  \<open>heap\<close> holds every element made so far, \<open>next_node\<close> is the next free number.
  \<open>pending\<close> holds the added scripts that the mutation observer has not yet been called
  for, \<open>observing\<close> tells whether \<open>interceptScripts\<close> has registered the observer.
  \<open>localStorage\<close> and \<open>sessionStorage\<close> are the items \<open>cmp_consent\<close> and
  \<open>cmp_session_id\<close>; \<open>storage_ok\<close> tells whether \<open>localStorage.setItem\<close> succeeds.
\<close>

record cmp =
  siteId :: string
  config :: "config option"
  consent :: "consent_record option"
  blockedScripts :: "(nat \<times> string) list"
  heap :: "nat \<Rightarrow> script_node"
  next_node :: nat
  pending :: "nat list"
  observing :: bool
  localStorage :: "consent_record option"
  storage_ok :: bool
  sessionStorage :: "string option"
  effects :: "effect list"

definition version :: string where
  "version = ''1.0.0''"

subsection \<open>Session identifier\<close>

definition hex_char :: "nat \<Rightarrow> char" where
  "hex_char v = ''0123456789abcdef'' ! (v mod 16)"

text \<open>
  \<open>generateId\<close>: every \<open>x\<close> and \<open>y\<close> of the template is replaced, from left to right, using
  the next value of \<open>Math.random() * 16 | 0\<close>; \<open>rnd i\<close> is the value of the \<open>i\<close>-th draw.
\<close>

fun fill_template :: "string \<Rightarrow> (nat \<Rightarrow> nat) \<Rightarrow> nat \<Rightarrow> string" where
  "fill_template [] rnd i = []"
| "fill_template (c # cs) rnd i =
     (if c = CHR ''x'' then hex_char (rnd i mod 16) # fill_template cs rnd (Suc i)
      else if c = CHR ''y'' then hex_char (((rnd i mod 16) AND 3) OR 8) # fill_template cs rnd (Suc i)
      else c # fill_template cs rnd i)"

definition generateId :: "(nat \<Rightarrow> nat) \<Rightarrow> string" where
  "generateId rnd = fill_template ''xxxxxxxx-xxxx-4xxx-yxxx-xxxxxxxxxxxx'' rnd 0"

definition getSessionId :: "(nat \<Rightarrow> nat) \<Rightarrow> cmp \<Rightarrow> string \<times> cmp" where
  "getSessionId rnd s =
     (case sessionStorage s of
        Some sid \<Rightarrow> if sid \<noteq> [] then (sid, s)
                    else (generateId rnd, s\<lparr>sessionStorage := Some (generateId rnd)\<rparr>)
      | None \<Rightarrow> (generateId rnd, s\<lparr>sessionStorage := Some (generateId rnd)\<rparr>))"

subsection \<open>handleScript\<close>

definition emit :: "effect \<Rightarrow> cmp \<Rightarrow> cmp" where
  "emit e s = s\<lparr>effects := effects s @ [e]\<rparr>"

definition update_node :: "nat \<Rightarrow> (script_node \<Rightarrow> script_node) \<Rightarrow> cmp \<Rightarrow> cmp" where
  "update_node n f s = s\<lparr>heap := (heap s)(n := f (heap s n))\<rparr>"

definition has_consent :: "cmp \<Rightarrow> string \<Rightarrow> bool" where
  "has_consent s cat =
     (case consent s of None \<Rightarrow> False | Some c \<Rightarrow> consented (cr_state c) cat)"

definition handleScript :: "nat \<Rightarrow> cmp \<Rightarrow> cmp" where
  "handleScript n s =
     (case getAttribute (heap s n) ''data-category'' of
        None \<Rightarrow> s
      | Some cat \<Rightarrow>
          if cat = [] then s
          else if cat = ''necessary'' then s
          else if \<not> has_consent s cat then
            (if script_type (heap s n) \<noteq> ''text/plain'' then
               emit (ScriptBlocked n cat)
                 ((update_node n (setAttribute ''data-blocked'' ''true'' \<circ> setAttribute ''type'' ''text/plain'') s)
                    \<lparr>blockedScripts := blockedScripts s @ [(n, cat)]\<rparr>)
             else s)
          else
            (if script_type (heap s n) = ''text/plain''
                \<and> (case getAttribute (heap s n) ''data-blocked'' of None \<Rightarrow> False | Some v \<Rightarrow> v \<noteq> [])
             then emit (ScriptUnblocked n cat)
                    (update_node n (removeAttribute ''data-blocked'' \<circ> setAttribute ''type'' ''text/javascript'') s)
             else s))"

subsection \<open>applyConsent\<close>

text \<open>
  The attributes of the replacement element: \<open>setAttribute\<close> on a new element for every
  attribute of the blocked one other than \<open>type\<close> and \<open>data-blocked\<close>, in order.
\<close>

definition copy_attributes :: "(string \<times> string) list \<Rightarrow> (string \<times> string) list" where
  "copy_attributes attrs =
     fold (\<lambda>(a, v) acc. if a \<noteq> ''type'' \<and> a \<noteq> ''data-blocked'' then AList.update a v acc else acc)
       attrs []"

text \<open>
  The body of \<open>this.blockedScripts.forEach\<close>.  \<open>script.parentNode.replaceChild\<close> throws a
  \<open>TypeError\<close> for an element without a parent; the new element exists by then.  The
  replacement is an added node for the mutation observer.
\<close>

fun unblock_each :: "(nat \<times> string) list \<Rightarrow> decision \<Rightarrow> cmp \<Rightarrow> js_error option \<times> cmp" where
  "unblock_each [] st s = (None, s)"
| "unblock_each ((n, cat) # rest) st s =
     (if consented st cat \<and> script_type (heap s n) = ''text/plain'' then
        (let new = next_node s;
             newScript = \<lparr>attributes = copy_attributes (attributes (heap s n)),
                          textContent = textContent (heap s n), parentNode = False\<rparr>;
             s1 = s\<lparr>heap := (heap s)(new := newScript), next_node := Suc new\<rparr>
         in if \<not> parentNode (heap s n) then (Some TypeError, s1)
            else unblock_each rest st
                   (emit (ScriptExecuted n new cat)
                      (s1\<lparr>heap := (heap s1)(n := (heap s1 n)\<lparr>parentNode := False\<rparr>,
                                               new := newScript\<lparr>parentNode := True\<rparr>),
                          pending := (if observing s1 then pending s1 @ [new] else pending s1)\<rparr>)))
      else unblock_each rest st s)"

definition applyConsent :: "cmp \<Rightarrow> js_error option \<times> cmp" where
  "applyConsent s =
     (case consent s of
        None \<Rightarrow> (None, s)
      | Some c \<Rightarrow>
          (case unblock_each (blockedScripts s) (cr_state c) s of
             (None, s') \<Rightarrow> (None, s'\<lparr>blockedScripts := []\<rparr>)
           | (Some e, s') \<Rightarrow> (Some e, s')))"

subsection \<open>saveConsent\<close>

text \<open>
  \<open>logConsent\<close> up to its first \<open>await\<close>: the session identifier is read or made, then
  the request is sent.  Without a configuration the read of \<open>this.config.policyVersion\<close>
  throws inside the \<open>try\<close>, and the error is written to the console.
\<close>

definition log_effect :: "string \<Rightarrow> decision \<Rightarrow> cmp \<Rightarrow> effect" where
  "log_effect sid cs s =
     (case config s of
        None \<Rightarrow> LogFailed
      | Some cfg \<Rightarrow>
          LogRequest
            \<lparr>lr_siteId = siteId s, lr_sessionId = sid, lr_consentState = cs,
             lr_widgetVersion = version,
             lr_policyVersion =
               (case cfg_policyVersion cfg of
                  None \<Rightarrow> ''1.0.0''
                | Some p \<Rightarrow> if p = [] then ''1.0.0'' else p)\<rparr>)"

definition logConsent :: "(nat \<Rightarrow> nat) \<Rightarrow> decision \<Rightarrow> cmp \<Rightarrow> cmp" where
  "logConsent rnd cs s =
     (case getSessionId rnd s of
        (sid, s1) \<Rightarrow> emit (log_effect sid cs s1) s1)"

text \<open>
  \<open>saveConsent(consentState)\<close> at time \<open>now\<close>: the new consent object is assigned first;
  a failure of \<open>localStorage.setItem\<close> is caught and written to the console; then come
  \<open>logConsent\<close>, \<open>applyConsent\<close> and the event \<open>cmp:consent-changed\<close>.  An exception of
  \<open>applyConsent\<close> leaves \<open>saveConsent\<close> before the event.
\<close>

definition saveConsent ::
  "(nat \<Rightarrow> nat) \<Rightarrow> int \<Rightarrow> decision \<Rightarrow> cmp \<Rightarrow> js_error option \<times> cmp" where
  "saveConsent rnd now cs s =
     (let c = \<lparr>cr_state = cs, cr_timestamp = now, cr_version = version\<rparr>;
          s1 = s\<lparr>consent := Some c\<rparr>;
          s2 = (if storage_ok s1 then emit (Persisted c) (s1\<lparr>localStorage := Some c\<rparr>)
                else emit PersistFailed s1);
          s3 = logConsent rnd cs s2
      in case applyConsent s3 of
           (Some e, s4) \<Rightarrow> (Some e, s4)
         | (None, s4) \<Rightarrow> (None, emit (Dispatched ''cmp:consent-changed'' cs) s4))"

definition updateConsent ::
  "(nat \<Rightarrow> nat) \<Rightarrow> int \<Rightarrow> decision \<Rightarrow> cmp \<Rightarrow> js_error option \<times> cmp" where
  "updateConsent rnd now cs s = saveConsent rnd now cs s"

definition getConsent :: "cmp \<Rightarrow> decision option" where
  "getConsent s = map_option cr_state (consent s)"

definition acceptAll :: "(nat \<Rightarrow> nat) \<Rightarrow> int \<Rightarrow> cmp \<Rightarrow> js_error option \<times> cmp" where
  "acceptAll rnd now s =
     saveConsent rnd now
       [''necessary'' \<mapsto> True, ''preferences'' \<mapsto> True, ''analytics'' \<mapsto> True,
        ''marketing'' \<mapsto> True] s"

definition rejectAll :: "(nat \<Rightarrow> nat) \<Rightarrow> int \<Rightarrow> cmp \<Rightarrow> js_error option \<times> cmp" where
  "rejectAll rnd now s =
     saveConsent rnd now
       [''necessary'' \<mapsto> True, ''preferences'' \<mapsto> False, ''analytics'' \<mapsto> False,
        ''marketing'' \<mapsto> False] s"

subsection \<open>The observation stream\<close>

text \<open>
  The page adds a script element.  The mutation observer, when registered, is not called
  at once: the added scripts wait in \<open>pending\<close> until the script that is running has
  finished, and at that checkpoint the observer is called for them in the order of the
  additions.
\<close>

definition insert_script :: "(string \<times> string) list \<Rightarrow> string \<Rightarrow> cmp \<Rightarrow> cmp" where
  "insert_script attrs text s =
     s\<lparr>heap := (heap s)(next_node s := \<lparr>attributes = attrs, textContent = text, parentNode = True\<rparr>),
       next_node := Suc (next_node s),
       pending := (if observing s then pending s @ [next_node s] else pending s)\<rparr>"

definition deliver :: "cmp \<Rightarrow> cmp" where
  "deliver s = (fold handleScript (pending s) s)\<lparr>pending := []\<rparr>"

definition discover :: "(string \<times> string) list \<Rightarrow> string \<Rightarrow> cmp \<Rightarrow> cmp" where
  "discover attrs text s = deliver (insert_script attrs text s)"

text \<open>
  A consent change made by a script that does nothing else: the call, then the
  checkpoint.
\<close>

definition consent_change :: "(nat \<Rightarrow> nat) \<Rightarrow> int \<Rightarrow> decision \<Rightarrow> cmp \<Rightarrow> cmp" where
  "consent_change rnd now d s = deliver (snd (updateConsent rnd now d s))"

fun consent_changes :: "(nat \<Rightarrow> nat) \<Rightarrow> (int \<times> decision) list \<Rightarrow> cmp \<Rightarrow> cmp" where
  "consent_changes rnd [] s = s"
| "consent_changes rnd ((now, d) # ds) s = consent_changes rnd ds (consent_change rnd now d s)"

text \<open>
  What happens on a page in general, event by event: a call of \<open>updateConsent\<close> (if it
  throws, the page goes on from the state the call has left), a checkpoint, and the page
  adding a new script element.  Calls with no checkpoint between them are calls made by
  one script.
\<close>

datatype event =
    ConsentCall int decision
  | Checkpoint
  | ScriptAdded "(string \<times> string) list" string

fun page_step :: "(nat \<Rightarrow> nat) \<Rightarrow> event \<Rightarrow> cmp \<Rightarrow> cmp" where
  "page_step rnd (ConsentCall now d) s = snd (updateConsent rnd now d s)"
| "page_step rnd Checkpoint s = deliver s"
| "page_step rnd (ScriptAdded attrs text) s = insert_script attrs text s"

fun page_run :: "(nat \<Rightarrow> nat) \<Rightarrow> event list \<Rightarrow> cmp \<Rightarrow> cmp" where
  "page_run rnd [] s = s"
| "page_run rnd (e # es) s = page_run rnd es (page_step rnd e s)"

subsection \<open>The state of a gated element\<close>

datatype gate_state = Pending | Blocked | Active

text \<open>
  An element is in executable form unless its type is \<open>text/plain\<close>; a placeholder that
  carries the marker \<open>data-blocked\<close> is blocked.
\<close>

definition gate_of :: "script_node \<Rightarrow> gate_state" where
  "gate_of nd =
     (if script_type nd = ''text/plain''
      then (case getAttribute nd ''data-blocked'' of
              None \<Rightarrow> Pending
            | Some v \<Rightarrow> if v \<noteq> [] then Blocked else Pending)
      else Active)"

subsection \<open>Reading the effects and the blocked list\<close>

text \<open>The replacements among a sequence of effects: which element, of which category.\<close>

definition is_executed :: "effect \<Rightarrow> bool" where
  "is_executed e = (case e of ScriptExecuted n m c \<Rightarrow> True | _ \<Rightarrow> False)"

fun executed :: "effect list \<Rightarrow> (nat \<times> string) list" where
  "executed [] = []"
| "executed (ScriptExecuted n m c # es) = (n, c) # executed es"
| "executed (e # es) = executed es"

text \<open>
  A blocked list as \<open>handleScript\<close> builds it: every element once, each an existing
  placeholder that is still in the document.
\<close>

definition blocked_wf :: "(nat \<times> string) list \<Rightarrow> cmp \<Rightarrow> bool" where
  "blocked_wf bs s =
     (distinct (map fst bs)
      \<and> (\<forall>(n, c) \<in> set bs. n < next_node s \<and> parentNode (heap s n)
                              \<and> script_type (heap s n) = ''text/plain''))"

text \<open>
  The loop of \<open>applyConsent\<close> numbers its new elements from \<open>next_node\<close> on, changes
  nothing but \<open>parentNode\<close> in the elements that exist, and hands only new elements to
  the observer.
\<close>

definition fresh_only :: "cmp \<Rightarrow> cmp \<Rightarrow> bool" where
  "fresh_only s s' =
     (next_node s \<le> next_node s'
      \<and> (\<forall>m < next_node s. attributes (heap s' m) = attributes (heap s m)
                             \<and> textContent (heap s' m) = textContent (heap s m))
      \<and> (\<forall>m \<in> set (pending s'). m \<in> set (pending s) \<or> next_node s \<le> m)
      \<and> consent s' = consent s \<and> observing s' = observing s)"

text \<open>The state in which \<open>saveConsent\<close> calls \<open>applyConsent\<close>.\<close>

definition before_apply :: "(nat \<Rightarrow> nat) \<Rightarrow> int \<Rightarrow> decision \<Rightarrow> cmp \<Rightarrow> cmp" where
  "before_apply rnd now d s =
     logConsent rnd d
       (if storage_ok s
        then emit (Persisted \<lparr>cr_state = d, cr_timestamp = now, cr_version = version\<rparr>)
               (s\<lparr>consent := Some \<lparr>cr_state = d, cr_timestamp = now, cr_version = version\<rparr>,
                  localStorage := Some \<lparr>cr_state = d, cr_timestamp = now, cr_version = version\<rparr>\<rparr>)
        else emit PersistFailed
               (s\<lparr>consent := Some \<lparr>cr_state = d, cr_timestamp = now, cr_version = version\<rparr>\<rparr>))"

section \<open>Example page\<close>

text \<open>
  A page on which the widget is configured and observing, with no consent decision yet
  and no script added.
\<close>

definition fresh_page :: cmp where
  "fresh_page =
     \<lparr>siteId = ''default'',
      config = Some \<lparr>blocking_enabled = True, cfg_policyVersion = None\<rparr>,
      consent = None, blockedScripts = [],
      heap = (\<lambda>_. \<lparr>attributes = [], textContent = [], parentNode = False\<rparr>),
      next_node = 0, pending = [], observing = True, localStorage = None, storage_ok = True,
      sessionStorage = Some ''0f8fad5b-d9cb-469f-a165-70867728950e'', effects = []\<rparr>"

definition analytics_script :: "(string \<times> string) list" where
  "analytics_script = [(''src'', ''analytics.js''), (''data-category'', ''analytics'')]"

definition only_preferences :: decision where
  "only_preferences =
     [''necessary'' \<mapsto> True, ''preferences'' \<mapsto> True, ''analytics'' \<mapsto> False,
      ''marketing'' \<mapsto> False]"

definition also_analytics :: decision where
  "also_analytics =
     [''necessary'' \<mapsto> True, ''preferences'' \<mapsto> True, ''analytics'' \<mapsto> True,
      ''marketing'' \<mapsto> False]"

definition no_random :: "nat \<Rightarrow> nat" where
  "no_random i = 0"


text \<open>The fresh page after an analytics script has been added: the script is blocked.\<close>

definition blocked_page :: cmp where
  "blocked_page = discover analytics_script ''track()'' fresh_page"

text \<open>
  The same page after a script of the page has taken the blocked placeholder out of the
  document (\<open>script.remove()\<close>).
\<close>

definition detached_page :: cmp where
  "detached_page = update_node 0 (\<lambda>nd. nd\<lparr>parentNode := False\<rparr>) blocked_page"

text \<open>A decision that turns \<open>necessary\<close> off.\<close>

definition necessary_off :: decision where
  "necessary_off =
     [''necessary'' \<mapsto> False, ''preferences'' \<mapsto> False, ''analytics'' \<mapsto> True,
      ''marketing'' \<mapsto> False]"

text \<open>The fresh page in a browser that refuses to store items.\<close>

definition no_storage_page :: cmp where
  "no_storage_page = fresh_page\<lparr>storage_ok := False\<rparr>"

section \<open>Example corpus\<close>

text \<open>
  A small corpus for the concrete runs below: an exact record for \<open>_fbp\<close>, the wildcard
  record \<open>_ga*\<close>, and an exact record for \<open>_gid\<close>.
\<close>

definition fbp_cookie :: cookie where
  "fbp_cookie =
     \<lparr>ck_id = ''1'', ck_platform = ''Facebook'', ck_category = ''marketing'', ck_name = ''_fbp'',
      ck_domain = ''.facebook.com'', ck_description = ''Facebook pixel'',
      ck_retention = ''3 months'', ck_dataController = ''Meta'', ck_privacyPortal = [],
      ck_isWildcard = False\<rparr>"

definition ga_cookie :: cookie where
  "ga_cookie =
     \<lparr>ck_id = ''2'', ck_platform = ''Google Analytics'', ck_category = ''analytics'',
      ck_name = ''_ga*'', ck_domain = [], ck_description = ''Google Analytics'',
      ck_retention = ''2 years'', ck_dataController = ''Google'', ck_privacyPortal = [],
      ck_isWildcard = True\<rparr>"

definition example_db :: database where
  "example_db = make_database 1705314600 [fbp_cookie, ga_cookie]"

text \<open>A \<open>CookieDatabase\<close> object with the example corpus loaded and no overrides file.\<close>

definition example_cdb :: cdb where
  "example_cdb =
     \<lparr>database = Some example_db, cacheFile = Holds example_db, overridesFile = Missing,
      csv_rows = None, writable = True\<rparr>"

text \<open>A fresh object on a server with no cache file, when the download fails.\<close>

definition offline_cdb :: cdb where
  "offline_cdb =
     \<lparr>database = None, cacheFile = Missing, overridesFile = Missing, csv_rows = None,
      writable = True\<rparr>"

section \<open>Example request\<close>

text \<open>
  The request of the installation guide's test call
  (\<open>curl \<dots> -d '{"sessionId":"test123","consentState":{"necessary":true}}'\<close>), sent from the
  server itself to an empty log.
\<close>

definition curl_env :: server_env where
  "curl_env = \<lparr>remote_addr = Some ''127.0.0.1'', http_user_agent = Some ''curl/8.5.0''\<rparr>"

definition empty_log :: log_storage where
  "empty_log = \<lparr>log_lines = [], readable = True, appendable = True\<rparr>"

definition curl_metadata :: "(string \<times> string) list" where
  "curl_metadata = [(''siteId'', ''default''), (''jurisdiction'', ''unknown'')]"


text \<open>
  A log of two receipts of one visitor on one day: everything accepted, then everything
  rejected in the widget, which keeps \<open>necessary\<close> on.
\<close>

definition accept_entry :: log_entry where
  "accept_entry =
     \<lparr>timestamp = 1705314600, sessionId = ''0f8fad5b-d9cb-469f-a165-70867728950e'',
      consentState = [(''necessary'', True), (''preferences'', True), (''analytics'', True),
        (''marketing'', True)],
      widgetVersion = ''1.0.0'', policyVersion = ''1.0.0'', metadata = []\<rparr>"

definition reject_entry :: log_entry where
  "reject_entry =
     \<lparr>timestamp = 1705318200, sessionId = ''0f8fad5b-d9cb-469f-a165-70867728950e'',
      consentState = [(''necessary'', True), (''preferences'', False), (''analytics'', False),
        (''marketing'', False)],
      widgetVersion = ''1.0.0'', policyVersion = ''1.0.0'', metadata = []\<rparr>"

definition two_receipts :: log_storage where
  "two_receipts = \<lparr>log_lines = [accept_entry, reject_entry], readable = True, appendable = True\<rparr>"

section \<open>Consent statistics: which counter an entry lands in\<close>

lemma scan_consent_flags:
  "scan_consent cs bc a r =
     (fst (scan_consent cs bc a r),
      a \<and> (\<forall>(c, b) \<in> set cs. \<not> b \<longrightarrow> c = ''necessary''),
      r \<and> (\<forall>(c, b) \<in> set cs. \<not> b))"
  by (induction cs bc a r rule: scan_consent.induct) (auto simp: Let_def)

lemma count_log_kept:
  assumes "\<not> (cutoff > 0 \<and> timestamp lg < cutoff)"
  shows "count_log ymd cutoff st lg =
     (case scan_consent (consentState lg) (byCategory st) True True of
        (bc, allAccepted, allRejected) \<Rightarrow>
          (let st1 = st\<lparr>total := total st + 1, byCategory := bc\<rparr>;
               st2 = (if allAccepted then st1\<lparr>acceptedAll := acceptedAll st1 + 1\<rparr>
                      else if allRejected then st1\<lparr>rejectedAll := rejectedAll st1 + 1\<rparr>
                      else st1\<lparr>customized := customized st1 + 1\<rparr>)
           in st2\<lparr>byDay := bump_day (byDay st2) (ymd (timestamp lg))\<rparr>))"
  unfolding count_log_def using assms by (rule if_not_P)

lemma count_log_counters:
  assumes "\<not> (cutoff > 0 \<and> timestamp lg < cutoff)"
  shows "acceptedAll (count_log ymd cutoff st lg) =
           acceptedAll st + (if all_accepted (consentState lg) then 1 else 0)"
    and "rejectedAll (count_log ymd cutoff st lg) =
           rejectedAll st
             + (if \<not> all_accepted (consentState lg) \<and> all_rejected (consentState lg) then 1 else 0)"
    and "customized (count_log ymd cutoff st lg) =
           customized st
             + (if \<not> all_accepted (consentState lg) \<and> \<not> all_rejected (consentState lg) then 1 else 0)"
    and "total (count_log ymd cutoff st lg) = total st + 1"
proof -
  obtain bc where sc: "scan_consent (consentState lg) (byCategory st) True True =
      (bc, all_accepted (consentState lg), all_rejected (consentState lg))"
    using scan_consent_flags [of "consentState lg" "byCategory st" True True]
    by (simp add: all_accepted_def all_rejected_def)
  note k = count_log_kept [OF assms, of ymd st]
  show "acceptedAll (count_log ymd cutoff st lg) =
           acceptedAll st + (if all_accepted (consentState lg) then 1 else 0)"
    by (simp add: k sc Let_def)
  show "rejectedAll (count_log ymd cutoff st lg) =
           rejectedAll st
             + (if \<not> all_accepted (consentState lg) \<and> all_rejected (consentState lg) then 1 else 0)"
    by (simp add: k sc Let_def)
  show "customized (count_log ymd cutoff st lg) =
           customized st
             + (if \<not> all_accepted (consentState lg) \<and> \<not> all_rejected (consentState lg) then 1 else 0)"
    by (simp add: k sc Let_def)
  show "total (count_log ymd cutoff st lg) = total st + 1"
    by (simp add: k sc Let_def)
qed

lemma count_log_skipped:
  "cutoff > 0 \<and> timestamp lg < cutoff \<Longrightarrow> count_log ymd cutoff st lg = st"
  unfolding count_log_def by (rule if_P)

text \<open>
  \<open>getStats\<close> folds \<open>count_log\<close> over the entries in file order, starting from the
  zero counters, so the last entry of a readable log is counted on top of the
  statistics of the entries before it.
\<close>

lemma getStats_last_entry:
  assumes "readable store" and "log_lines store = ls @ [lg]"
  shows "getStats ymd days_ago store days =
     Stats (count_log ymd (if days > 0 then days_ago days else 0)
       (foldl (count_log ymd (if days > 0 then days_ago days else 0)) stats0 ls) lg)"
  using assms by (simp add: getStats_def Let_def)

text \<open>
  The three consent-type counters after the whole loop: each is a count of the entries
  inside the time window, by the flags of their consent states, so it does not depend on
  the order of the entries.
\<close>

lemma count_log_step:
  "acceptedAll (count_log ymd cutoff st l) =
     acceptedAll st + (if counted cutoff l \<and> all_accepted (consentState l) then 1 else 0)"
  "rejectedAll (count_log ymd cutoff st l) =
     rejectedAll st + (if counted cutoff l \<and> \<not> all_accepted (consentState l)
                          \<and> all_rejected (consentState l) then 1 else 0)"
  "customized (count_log ymd cutoff st l) =
     customized st + (if counted cutoff l \<and> \<not> all_accepted (consentState l)
                         \<and> \<not> all_rejected (consentState l) then 1 else 0)"
proof -
  have "acceptedAll (count_log ymd cutoff st l) =
        acceptedAll st + (if counted cutoff l \<and> all_accepted (consentState l) then 1 else 0)
    \<and> rejectedAll (count_log ymd cutoff st l) =
        rejectedAll st + (if counted cutoff l \<and> \<not> all_accepted (consentState l)
                             \<and> all_rejected (consentState l) then 1 else 0)
    \<and> customized (count_log ymd cutoff st l) =
        customized st + (if counted cutoff l \<and> \<not> all_accepted (consentState l)
                            \<and> \<not> all_rejected (consentState l) then 1 else 0)"
  proof (cases "counted cutoff l")
    case True
    then have "\<not> (cutoff > 0 \<and> timestamp l < cutoff)"
      by (simp add: counted_def)
    from count_log_counters(1-3) [OF this, of ymd st] True show ?thesis
      by simp
  next
    case False
    then have "cutoff > 0 \<and> timestamp l < cutoff"
      by (simp add: counted_def)
    then have "count_log ymd cutoff st l = st"
      by (rule count_log_skipped)
    with False show ?thesis
      by simp
  qed
  then show
    "acceptedAll (count_log ymd cutoff st l) =
       acceptedAll st + (if counted cutoff l \<and> all_accepted (consentState l) then 1 else 0)"
    "rejectedAll (count_log ymd cutoff st l) =
       rejectedAll st + (if counted cutoff l \<and> \<not> all_accepted (consentState l)
                            \<and> all_rejected (consentState l) then 1 else 0)"
    "customized (count_log ymd cutoff st l) =
       customized st + (if counted cutoff l \<and> \<not> all_accepted (consentState l)
                           \<and> \<not> all_rejected (consentState l) then 1 else 0)"
    by blast+
qed

lemma foldl_count_log_accepted:
  "acceptedAll (foldl (count_log ymd cutoff) st ls) =
     acceptedAll st
       + length (filter (\<lambda>lg. counted cutoff lg \<and> all_accepted (consentState lg)) ls)"
proof (induction ls arbitrary: st)
  case Nil
  show ?case by simp
next
  case (Cons l ls)
  show ?case
    unfolding foldl_Cons Cons.IH count_log_step by simp
qed

lemma foldl_count_log_rejected:
  "rejectedAll (foldl (count_log ymd cutoff) st ls) =
     rejectedAll st
       + length (filter (\<lambda>lg. counted cutoff lg \<and> \<not> all_accepted (consentState lg)
                            \<and> all_rejected (consentState lg)) ls)"
proof (induction ls arbitrary: st)
  case Nil
  show ?case by simp
next
  case (Cons l ls)
  show ?case
    unfolding foldl_Cons Cons.IH count_log_step by simp
qed

lemma foldl_count_log_customized:
  "customized (foldl (count_log ymd cutoff) st ls) =
     customized st
       + length (filter (\<lambda>lg. counted cutoff lg \<and> \<not> all_accepted (consentState lg)
                            \<and> \<not> all_rejected (consentState lg)) ls)"
proof (induction ls arbitrary: st)
  case Nil
  show ?case by simp
next
  case (Cons l ls)
  show ?case
    unfolding foldl_Cons Cons.IH count_log_step by simp
qed

text \<open>
  So an entry anywhere in a readable log adds one to exactly the counter its flags
  select; \<open>before\<close> is what \<open>getStats\<close> returns for the log without that entry.
\<close>

lemma getStats_before:
  assumes "readable store"
    and "zs = [] \<and> before = stats0
         \<or> getStats ymd days_ago (store\<lparr>log_lines := zs\<rparr>) days = Stats before"
  shows "before = foldl (count_log ymd (if days > 0 then days_ago days else 0)) stats0 zs"
proof (cases "zs = []")
  case True
  with assms show ?thesis
    by (auto simp: getStats_def)
next
  case False
  with assms(2) have "getStats ymd days_ago (store\<lparr>log_lines := zs\<rparr>) days = Stats before"
    by simp
  with False assms(1) show ?thesis
    by (simp add: getStats_def Let_def)
qed

lemma getStats_entry:
  assumes "readable store" and "log_lines store = xs @ lg # ys"
    and "cutoff = (if days > 0 then days_ago days else 0)"
    and "xs @ ys = [] \<and> before = stats0
         \<or> getStats ymd days_ago (store\<lparr>log_lines := xs @ ys\<rparr>) days = Stats before"
  shows "\<exists>st. getStats ymd days_ago store days = Stats st
    \<and> acceptedAll st = acceptedAll before
        + (if counted cutoff lg \<and> all_accepted (consentState lg) then 1 else 0)
    \<and> rejectedAll st = rejectedAll before
        + (if counted cutoff lg \<and> \<not> all_accepted (consentState lg)
              \<and> all_rejected (consentState lg) then 1 else 0)
    \<and> customized st = customized before
        + (if counted cutoff lg \<and> \<not> all_accepted (consentState lg)
              \<and> \<not> all_rejected (consentState lg) then 1 else 0)"
proof -
  let ?f = "count_log ymd cutoff"
  have b: "before = foldl ?f stats0 (xs @ ys)"
    unfolding assms(3) using assms(1,4) by (rule getStats_before)
  have g: "getStats ymd days_ago store days = Stats (foldl ?f stats0 (xs @ lg # ys))"
    using assms(1,2,3) by (simp add: getStats_def Let_def)
  have "acceptedAll (foldl ?f stats0 (xs @ lg # ys)) = acceptedAll before
        + (if counted cutoff lg \<and> all_accepted (consentState lg) then 1 else 0)"
    unfolding b foldl_count_log_accepted by simp
  moreover have "rejectedAll (foldl ?f stats0 (xs @ lg # ys)) = rejectedAll before
        + (if counted cutoff lg \<and> \<not> all_accepted (consentState lg)
              \<and> all_rejected (consentState lg) then 1 else 0)"
    unfolding b foldl_count_log_rejected by simp
  moreover have "customized (foldl ?f stats0 (xs @ lg # ys)) = customized before
        + (if counted cutoff lg \<and> \<not> all_accepted (consentState lg)
              \<and> \<not> all_rejected (consentState lg) then 1 else 0)"
    unfolding b foldl_count_log_customized by simp
  ultimately show ?thesis
    using g by (intro exI [of _ "foldl ?f stats0 (xs @ lg # ys)"] conjI)
qed

text \<open>
  Claim C10.  \<open>getStats\<close> on a readable log that holds the entry \<open>lg\<close>, at any position,
  returns the full statistics; \<open>before\<close> is what it returns for the log without that
  entry (all counters zero when no other entry is there).  If \<open>lg\<close> is inside the time
  window and its consent state has \<open>necessary\<close> accepted and some other category rejected
  (the reject-all decision of the widget), \<open>getStats\<close> counts it in \<open>customized\<close> and
  leaves \<open>rejectedAll\<close> and \<open>acceptedAll\<close> as they were; \<open>rejectedAll\<close> differs only if
  every category of \<open>lg\<close>, \<open>necessary\<close> included, is rejected; an entry inside the window
  with an empty consent state is counted in \<open>acceptedAll\<close>.
\<close>

theorem getStats_consent_type:
  assumes "readable store" and "log_lines store = xs @ lg # ys"
    and "cutoff = (if days > 0 then days_ago days else 0)"
    and "xs @ ys = [] \<and> before = stats0
         \<or> getStats ymd days_ago (store\<lparr>log_lines := xs @ ys\<rparr>) days = Stats before"
  shows "\<exists>st. getStats ymd days_ago store days = Stats st
    \<and> ((''necessary'', True) \<in> set (consentState lg)
          \<and> (\<exists>c. c \<noteq> ''necessary'' \<and> (c, False) \<in> set (consentState lg))
          \<and> \<not> (cutoff > 0 \<and> timestamp lg < cutoff)
        \<longrightarrow> customized st = customized before + 1
            \<and> rejectedAll st = rejectedAll before
            \<and> acceptedAll st = acceptedAll before)
    \<and> (rejectedAll st \<noteq> rejectedAll before
        \<longrightarrow> (\<forall>(c, b) \<in> set (consentState lg). \<not> b))
    \<and> (consentState lg = [] \<and> \<not> (cutoff > 0 \<and> timestamp lg < cutoff)
        \<longrightarrow> acceptedAll st = acceptedAll before + 1
          \<and> rejectedAll st = rejectedAll before
          \<and> customized st = customized before)"
proof -
  from getStats_entry [OF assms]
  obtain st where g: "getStats ymd days_ago store days = Stats st"
    and a: "acceptedAll st = acceptedAll before
        + (if counted cutoff lg \<and> all_accepted (consentState lg) then 1 else 0)"
    and r: "rejectedAll st = rejectedAll before
        + (if counted cutoff lg \<and> \<not> all_accepted (consentState lg)
              \<and> all_rejected (consentState lg) then 1 else 0)"
    and c: "customized st = customized before
        + (if counted cutoff lg \<and> \<not> all_accepted (consentState lg)
              \<and> \<not> all_rejected (consentState lg) then 1 else 0)"
    by (elim exE conjE)
  have 1: "(''necessary'', True) \<in> set (consentState lg)
          \<and> (\<exists>c. c \<noteq> ''necessary'' \<and> (c, False) \<in> set (consentState lg))
          \<and> \<not> (cutoff > 0 \<and> timestamp lg < cutoff)
        \<longrightarrow> customized st = customized before + 1
            \<and> rejectedAll st = rejectedAll before
            \<and> acceptedAll st = acceptedAll before"
  proof
    assume h: "(''necessary'', True) \<in> set (consentState lg)
          \<and> (\<exists>c. c \<noteq> ''necessary'' \<and> (c, False) \<in> set (consentState lg))
          \<and> \<not> (cutoff > 0 \<and> timestamp lg < cutoff)"
    then have k: "counted cutoff lg"
      by (simp add: counted_def)
    from h have "\<not> all_rejected (consentState lg)"
      unfolding all_rejected_def by auto
    moreover from h have "\<not> all_accepted (consentState lg)"
      unfolding all_accepted_def by auto
    ultimately show "customized st = customized before + 1
            \<and> rejectedAll st = rejectedAll before
            \<and> acceptedAll st = acceptedAll before"
      using k by (simp add: a r c)
  qed
  have 2: "rejectedAll st \<noteq> rejectedAll before
        \<longrightarrow> (\<forall>(c, b) \<in> set (consentState lg). \<not> b)"
  proof
    assume "rejectedAll st \<noteq> rejectedAll before"
    with r have "all_rejected (consentState lg)"
      by (simp split: if_splits)
    then show "\<forall>(c, b) \<in> set (consentState lg). \<not> b"
      unfolding all_rejected_def .
  qed
  have 3: "consentState lg = [] \<and> \<not> (cutoff > 0 \<and> timestamp lg < cutoff)
        \<longrightarrow> acceptedAll st = acceptedAll before + 1
          \<and> rejectedAll st = rejectedAll before
          \<and> customized st = customized before"
  proof
    assume h: "consentState lg = [] \<and> \<not> (cutoff > 0 \<and> timestamp lg < cutoff)"
    then have k: "counted cutoff lg"
      by (simp add: counted_def)
    from h have "all_accepted (consentState lg)"
      by (simp add: all_accepted_def)
    with k show "acceptedAll st = acceptedAll before + 1
          \<and> rejectedAll st = rejectedAll before
          \<and> customized st = customized before"
      by (simp add: a r c)
  qed
  from g 1 2 3 show ?thesis
    by (intro exI [of _ st] conjI)
qed

lemma example_entries:
  "timestamp accept_entry = 1705314600" "timestamp reject_entry = 1705318200"
  "consentState accept_entry =
     [(''necessary'', True), (''preferences'', True), (''analytics'', True), (''marketing'', True)]"
  "consentState reject_entry =
     [(''necessary'', True), (''preferences'', False), (''analytics'', False),
      (''marketing'', False)]"
  by (simp_all add: accept_entry_def reject_entry_def)

theorem getStats_consent_type_witness:
  "\<exists>st. getStats (\<lambda>t. ''2024-01-15'') (\<lambda>d. 1702722600) two_receipts 30 = Stats st
     \<and> customized st = 1 \<and> rejectedAll st = 0 \<and> acceptedAll st = 1"
proof -
  let ?ymd = "\<lambda>t::int. ''2024-01-15''"
  let ?ago = "\<lambda>d::int. 1702722600::int"
  define before where "before = count_log ?ymd 1702722600 stats0 accept_entry"
  have kept: "\<not> ((1702722600::int) > 0 \<and> timestamp accept_entry < 1702722600)"
    "\<not> ((1702722600::int) > 0 \<and> timestamp reject_entry < 1702722600)"
    by (simp_all add: example_entries)
  have aa: "all_accepted (consentState accept_entry)"
    by (simp add: all_accepted_def example_entries)
  have z: "customized stats0 = 0" "rejectedAll stats0 = 0" "acceptedAll stats0 = 0"
    by (simp_all add: stats0_def)
  have bf: "customized before = 0" "rejectedAll before = 0" "acceptedAll before = 1"
    unfolding before_def by (simp_all add: count_log_counters [OF kept(1)] aa z)
  have h1: "readable two_receipts"
    and h2: "log_lines two_receipts = [accept_entry] @ reject_entry # []"
    by (simp_all add: two_receipts_def)
  have h3: "(1702722600::int) = (if (30::int) > 0 then ?ago 30 else 0)"
    by simp
  have "getStats ?ymd ?ago (two_receipts\<lparr>log_lines := [accept_entry] @ []\<rparr>) 30 = Stats before"
    unfolding before_def
    using getStats_last_entry [where store = "two_receipts\<lparr>log_lines := [accept_entry]\<rparr>"
        and ls = "[]" and lg = accept_entry and ymd = ?ymd and days_ago = ?ago and days = 30]
    by (simp add: two_receipts_def)
  then have h4: "[accept_entry] @ [] = [] \<and> before = stats0
      \<or> getStats ?ymd ?ago (two_receipts\<lparr>log_lines := [accept_entry] @ []\<rparr>) 30 = Stats before"
    by (rule disjI2)
  have h5: "(''necessary'', True) \<in> set (consentState reject_entry)
      \<and> (\<exists>c. c \<noteq> ''necessary'' \<and> (c, False) \<in> set (consentState reject_entry))
      \<and> \<not> ((1702722600::int) > 0 \<and> timestamp reject_entry < 1702722600)"
  proof (intro conjI)
    show "\<exists>c. c \<noteq> ''necessary'' \<and> (c, False) \<in> set (consentState reject_entry)"
      by (rule exI [of _ "''preferences''"]) (simp add: example_entries)
  qed (simp_all add: example_entries)
  from getStats_consent_type [OF h1 h2 h3 h4]
  obtain st where g: "getStats ?ymd ?ago two_receipts 30 = Stats st"
    and c: "(''necessary'', True) \<in> set (consentState reject_entry)
          \<and> (\<exists>c. c \<noteq> ''necessary'' \<and> (c, False) \<in> set (consentState reject_entry))
          \<and> \<not> ((1702722600::int) > 0 \<and> timestamp reject_entry < 1702722600)
        \<longrightarrow> customized st = customized before + 1
            \<and> rejectedAll st = rejectedAll before
            \<and> acceptedAll st = acceptedAll before"
    by (elim exE conjE)
  from c h5 have "customized st = customized before + 1
            \<and> rejectedAll st = rejectedAll before
            \<and> acceptedAll st = acceptedAll before"
    by (rule mp)
  with bf have "customized st = 1 \<and> rejectedAll st = 0 \<and> acceptedAll st = 1"
    by simp
  with g have "getStats ?ymd ?ago two_receipts 30 = Stats st
     \<and> customized st = 1 \<and> rejectedAll st = 0 \<and> acceptedAll st = 1"
    by (rule conjI)
  then show ?thesis
    by (rule exI)
qed

section \<open>The session identifier of a log entry\<close>

lemma sha256_hex_length: "length (sha256_hex m) = 64"
  by (simp add: sha256_hex_def hex32_def Let_def)

lemma logged_session_id_long: "32 \<le> length sid \<Longrightarrow> logged_session_id env sid = sid"
  by (simp add: logged_session_id_def)

lemma logged_session_id_short:
  assumes "length sid < 32"
  shows "logged_session_id env sid =
           sha256_hex (sid @ (case remote_addr env of None \<Rightarrow> [] | Some a \<Rightarrow> a))"
    and "logged_session_id env sid \<noteq> sid"
proof -
  show e: "logged_session_id env sid =
           sha256_hex (sid @ (case remote_addr env of None \<Rightarrow> [] | Some a \<Rightarrow> a))"
    using assms by (simp add: logged_session_id_def)
  have "length (logged_session_id env sid) = 64"
    unfolding e by (rule sha256_hex_length)
  with assms show "logged_session_id env sid \<noteq> sid"
    by auto
qed

lemma log_appends:
  assumes "cs \<noteq> []" and "appendable store"
  shows "log env now store cs sid wv pv md =
     Inr (True, store\<lparr>log_lines := log_lines store @ [log_record env now cs sid wv pv md]\<rparr>)"
  using assms by (simp add: log_def)

lemma sessionId_log_record:
  "sessionId (log_record env now cs sid wv pv md) = logged_session_id env sid"
  by (simp add: log_record_def)

text \<open>
  Claim C9, as the code has it.  A call of \<open>log\<close> with a non-empty consent state on a log
  that can be appended to records one entry.  Its session identifier is the supplied one
  when that has at least 32 characters; a shorter identifier is replaced by the SHA-256
  digest of the identifier followed by the remote address, which differs from it.
\<close>

theorem log_session_id:
  assumes "cs \<noteq> []" and "appendable store"
  shows "\<exists>e. log env now store cs sid wv pv md =
                Inr (True, store\<lparr>log_lines := log_lines store @ [e]\<rparr>)
     \<and> (32 \<le> length sid \<longrightarrow> sessionId e = sid)
     \<and> (length sid < 32 \<longrightarrow>
          sessionId e = sha256_hex (sid @ (case remote_addr env of None \<Rightarrow> [] | Some a \<Rightarrow> a))
          \<and> sessionId e \<noteq> sid)"
proof (intro exI conjI)
  show "log env now store cs sid wv pv md =
     Inr (True, store\<lparr>log_lines := log_lines store @ [log_record env now cs sid wv pv md]\<rparr>)"
    using assms by (rule log_appends)
  show "32 \<le> length sid \<longrightarrow> sessionId (log_record env now cs sid wv pv md) = sid"
    by (simp add: sessionId_log_record logged_session_id_long)
  show "length sid < 32 \<longrightarrow>
          sessionId (log_record env now cs sid wv pv md)
            = sha256_hex (sid @ (case remote_addr env of None \<Rightarrow> [] | Some a \<Rightarrow> a))
          \<and> sessionId (log_record env now cs sid wv pv md) \<noteq> sid"
    using logged_session_id_short [of sid env] by (simp add: sessionId_log_record)
qed

theorem log_session_id_witness:
  "(\<exists>e. log curl_env 1705314600 empty_log [(''necessary'', True)]
            ''0f8fad5b-d9cb-469f-a165-70867728950e'' ''1.0.0'' ''1.0.0'' curl_metadata =
            Inr (True, empty_log\<lparr>log_lines := [e]\<rparr>)
        \<and> sessionId e = ''0f8fad5b-d9cb-469f-a165-70867728950e'')
   \<and> (\<exists>e. log curl_env 1705314600 empty_log [(''necessary'', True)]
            ''test123'' ''1.0.0'' ''1.0.0'' curl_metadata =
            Inr (True, empty_log\<lparr>log_lines := [e]\<rparr>)
        \<and> sessionId e = sha256_hex ''test123127.0.0.1'')"
proof -
  have cs: "[(''necessary'', True)] \<noteq> []"
    by simp
  have ap: "appendable empty_log"
    by (simp add: empty_log_def)
  have nil: "log_lines empty_log @ [e] = [e]" for e
    by (simp add: empty_log_def)
  have long: "32 \<le> length ''0f8fad5b-d9cb-469f-a165-70867728950e''"
    by simp
  have short: "length ''test123'' < 32"
    by simp
  have addr: "''test123'' @ (case remote_addr curl_env of None \<Rightarrow> [] | Some a \<Rightarrow> a)
      = ''test123127.0.0.1''"
    by (simp add: curl_env_def)
  from log_session_id [OF cs ap, of curl_env 1705314600
      "''0f8fad5b-d9cb-469f-a165-70867728950e''" "''1.0.0''" "''1.0.0''" curl_metadata] long
  have a: "\<exists>e. log curl_env 1705314600 empty_log [(''necessary'', True)]
            ''0f8fad5b-d9cb-469f-a165-70867728950e'' ''1.0.0'' ''1.0.0'' curl_metadata =
            Inr (True, empty_log\<lparr>log_lines := [e]\<rparr>)
        \<and> sessionId e = ''0f8fad5b-d9cb-469f-a165-70867728950e''"
    unfolding nil by blast
  from log_session_id [OF cs ap, of curl_env 1705314600 "''test123''" "''1.0.0''" "''1.0.0''"
      curl_metadata] short
  have b: "\<exists>e. log curl_env 1705314600 empty_log [(''necessary'', True)]
            ''test123'' ''1.0.0'' ''1.0.0'' curl_metadata =
            Inr (True, empty_log\<lparr>log_lines := [e]\<rparr>)
        \<and> sessionId e = sha256_hex ''test123127.0.0.1''"
    unfolding nil addr by blast
  from a b show ?thesis
    by (rule conjI)
qed

text \<open>
  The test call of the installation guide: the identifier \<open>test123\<close> has seven characters,
  and the entry that is recorded does not carry it.
\<close>

theorem log_session_id_counterexample:
  "log curl_env 1705314600 empty_log [(''necessary'', True)] ''test123'' ''1.0.0'' ''1.0.0''
      curl_metadata =
     Inr (True, empty_log\<lparr>log_lines :=
       [log_record curl_env 1705314600 [(''necessary'', True)] ''test123'' ''1.0.0'' ''1.0.0''
          curl_metadata]\<rparr>)
   \<and> sessionId (log_record curl_env 1705314600 [(''necessary'', True)] ''test123'' ''1.0.0''
        ''1.0.0'' curl_metadata) \<noteq> ''test123''"
proof
  show "log curl_env 1705314600 empty_log [(''necessary'', True)] ''test123'' ''1.0.0'' ''1.0.0''
      curl_metadata =
     Inr (True, empty_log\<lparr>log_lines :=
       [log_record curl_env 1705314600 [(''necessary'', True)] ''test123'' ''1.0.0'' ''1.0.0''
          curl_metadata]\<rparr>)"
    by (simp add: log_def empty_log_def)
  have "length ''test123'' < 32"
    by simp
  then have "logged_session_id curl_env ''test123'' \<noteq> ''test123''"
    by (rule logged_session_id_short(2))
  then show "sessionId (log_record curl_env 1705314600 [(''necessary'', True)] ''test123''
        ''1.0.0'' ''1.0.0'' curl_metadata) \<noteq> ''test123''"
    by (simp only: sessionId_log_record not_False_eq_True)
qed

section \<open>Lowercasing and domain containment\<close>

lemma lower_char_upper:
  "65 \<le> (of_char c :: nat) \<Longrightarrow> (of_char c :: nat) \<le> 90
     \<Longrightarrow> lower_char c = char_of ((of_char c :: nat) + 32)"
  by (simp add: lower_char_def Let_def)

lemma lower_char_other:
  "(of_char c :: nat) < 65 \<or> 90 < (of_char c :: nat) \<Longrightarrow> lower_char c = c"
  by (auto simp: lower_char_def Let_def)

lemma lower_char_idem: "lower_char (lower_char c) = lower_char c"
proof (cases "65 \<le> (of_char c :: nat) \<and> (of_char c :: nat) \<le> 90")
  case True
  then have e: "lower_char c = char_of ((of_char c :: nat) + 32)"
    by (simp add: lower_char_upper)
  from True have "90 < (of_char (char_of ((of_char c :: nat) + 32)) :: nat)"
    by simp
  then have "lower_char (char_of ((of_char c :: nat) + 32)) = char_of ((of_char c :: nat) + 32)"
    by (intro lower_char_other disjI2)
  with e show ?thesis
    by simp
next
  case False
  then have "lower_char c = c"
    by (intro lower_char_other) linarith
  then show ?thesis
    by simp
qed

lemma strtolower_idem: "strtolower (strtolower s) = strtolower s"
  by (simp add: strtolower_def lower_char_idem)

lemma strtolower_Nil: "(strtolower s = []) = (s = [])"
  by (simp add: strtolower_def)

lemma lower_char_zero: "(lower_char c = CHR ''0'') = (c = CHR ''0'')"
proof
  assume h: "lower_char c = CHR ''0''"
  show "c = CHR ''0''"
  proof (cases "65 \<le> (of_char c :: nat) \<and> (of_char c :: nat) \<le> 90")
    case True
    then have "lower_char c = char_of ((of_char c :: nat) + 32)"
      by (simp add: lower_char_upper)
    with h have "(of_char (char_of ((of_char c :: nat) + 32)) :: nat) = of_char (CHR ''0'')"
      by simp
    with True show ?thesis
      by simp
  next
    case False
    then have "lower_char c = c"
      by (intro lower_char_other) linarith
    with h show ?thesis
      by simp
  qed
next
  assume "c = CHR ''0''"
  then show "lower_char c = CHR ''0''"
    by (simp add: lower_char_other)
qed

lemma php_empty_strtolower: "php_empty (strtolower s) = php_empty s"
proof (cases s)
  case Nil
  then show ?thesis
    by (simp add: strtolower_def php_empty_def)
next
  case (Cons c cs)
  then show ?thesis
    by (cases cs) (simp_all add: strtolower_def php_empty_def lower_char_zero)
qed

lemma substr_last_suffix:
  assumes "0 < length p"
  shows "(substr_last d (length p) = p) = suffix p d"
proof
  assume "substr_last d (length p) = p"
  with assms have "drop (length d - length p) d = p"
    by (simp add: substr_last_def)
  then have "d = take (length d - length p) d @ p"
    by (metis append_take_drop_id)
  then show "suffix p d"
    unfolding suffix_def by blast
next
  assume "suffix p d"
  then obtain zs where "d = zs @ p"
    unfolding suffix_def by blast
  with assms show "substr_last d (length p) = p"
    by (simp add: substr_last_def)
qed

lemma domainMatches_lower:
  assumes p: "strtolower p = p" and d: "strtolower d = d"
  shows "(p = d \<or> domainMatches d p) = domain_contains p d"
proof (cases p)
  case Nil
  have "(substr_last d (length [CHR ''.'']) = [CHR ''.'']) = suffix [CHR ''.''] d"
    by (rule substr_last_suffix) simp
  with Nil p d show ?thesis
    by (auto simp: domainMatches_def domain_contains_def Let_def)
next
  case (Cons c cs)
  have a: "(substr_last d (length (c # cs)) = c # cs) = suffix (c # cs) d"
    by (rule substr_last_suffix) simp
  have b: "(substr_last d (length (CHR ''.'' # c # cs)) = CHR ''.'' # c # cs)
             = suffix (CHR ''.'' # c # cs) d"
    by (rule substr_last_suffix) simp
  from Cons a b p d show ?thesis
    by (auto simp: domainMatches_def domain_contains_def Let_def)
qed

lemma domainMatches_contains:
  "(strtolower p = strtolower d \<or> domainMatches (strtolower d) (strtolower p))
     = domain_contains (strtolower p) (strtolower d)"
  by (rule domainMatches_lower) (simp_all add: strtolower_idem)

section \<open>The indexes made by buildIndexes\<close>

lemma buckets_below_mono: "buckets_below m k \<Longrightarrow> k \<le> k' \<Longrightarrow> buckets_below m k'"
  unfolding buckets_below_def by fastforce

lemma buckets_below_add:
  assumes "buckets_below m i"
  shows "buckets_below (bucket_add m key i) (Suc i)"
  unfolding buckets_below_def
proof
  fix l
  assume "l \<in> ran (bucket_add m key i)"
  then obtain k where k: "bucket_add m key i k = Some l"
    unfolding ran_def by blast
  show "l \<noteq> [] \<and> (\<forall>j \<in> set l. j < Suc i)"
  proof (cases "k = key")
    case True
    with k have l: "l = (case m key of None \<Rightarrow> [] | Some l' \<Rightarrow> l') @ [i]"
      by (simp add: bucket_add_def)
    show ?thesis
    proof (cases "m key")
      case None
      with l show ?thesis by simp
    next
      case (Some l')
      then have "l' \<in> ran m"
        unfolding ran_def by blast
      with assms have "\<forall>j \<in> set l'. j < i"
        unfolding buckets_below_def by blast
      with l Some show ?thesis
        by (auto simp: less_Suc_eq)
    qed
  next
    case False
    with k have "m k = Some l"
      by (simp add: bucket_add_def)
    then have "l \<in> ran m"
      unfolding ran_def by blast
    with assms show ?thesis
      unfolding buckets_below_def by (auto simp: less_Suc_eq)
  qed
qed

lemma indexes_below_cookie:
  assumes "indexes_below ix i"
  shows "indexes_below (index_cookie i c ix) (Suc i)"
proof -
  from assms have n: "buckets_below (byName ix) i" and d: "buckets_below (byDomain ix) i"
    and w: "\<forall>w \<in> set (wildcards ix). wc_index w < i"
    unfolding indexes_below_def by simp_all
  have n1: "buckets_below (byName ix) (Suc i)"
    using n by (rule buckets_below_mono) simp
  have d1: "buckets_below (byDomain ix) (Suc i)"
    using d by (rule buckets_below_mono) simp
  have w1: "\<forall>w \<in> set (wildcards ix). wc_index w < Suc i"
    using w by (auto simp: less_Suc_eq)
  note adds = buckets_below_add [OF n] buckets_below_add [OF d]
  show ?thesis
    unfolding indexes_below_def index_cookie_def Let_def
    using n1 d1 w1 adds by simp
qed

lemma indexes_below_from:
  "indexes_below ix i \<Longrightarrow> indexes_below (index_from i cs ix) (i + length cs)"
proof (induction cs arbitrary: i ix)
  case Nil
  then show ?case by simp
next
  case (Cons c cs)
  from Cons.prems have "indexes_below (index_cookie i c ix) (Suc i)"
    by (rule indexes_below_cookie)
  then have "indexes_below (index_from (Suc i) cs (index_cookie i c ix)) (Suc i + length cs)"
    by (rule Cons.IH)
  then show ?case by simp
qed

lemma indexes_ok_make_database: "indexes_ok (make_database now cookies)"
proof -
  have "indexes_below \<lparr>byName = Map.empty, byDomain = Map.empty, wildcards = []\<rparr> 0"
    by (simp add: indexes_below_def buckets_below_def)
  then have "indexes_below (buildIndexes cookies) (0 + length cookies)"
    unfolding buildIndexes_def by (rule indexes_below_from)
  then show ?thesis
    by (simp add: indexes_ok_def make_database_def indexes_below_def buckets_below_def)
qed

section \<open>The loops of categorize as searches\<close>

lemma cookie_at_inside:
  "i < length (db_cookies db) \<Longrightarrow> cookie_at db i = Inr (db_cookies db ! i)"
  by (simp add: cookie_at_def)

lemma exact_domain_loop_find:
  assumes "strtolower domain = domain"
  shows "\<forall>i \<in> set idxs. i < length (db_cookies db) \<Longrightarrow>
     exact_domain_loop db domain idxs =
       map_option (\<lambda>c. Inr (cookie_result ConfExact c))
         (List.find (\<lambda>c. domain_contains (strtolower (ck_domain c)) domain)
            (map (\<lambda>i. db_cookies db ! i) idxs))"
proof (induction idxs)
  case Nil
  then show ?case by simp
next
  case (Cons idx rest)
  let ?c = "db_cookies db ! idx"
  from Cons.prems have at: "cookie_at db idx = Inr ?c"
    by (simp add: cookie_at_inside)
  from Cons.prems have rest: "\<forall>i \<in> set rest. i < length (db_cookies db)"
    by simp
  have cond: "(strtolower (ck_domain ?c) = domain
                \<or> domainMatches domain (strtolower (ck_domain ?c)))
              = domain_contains (strtolower (ck_domain ?c)) domain"
    by (rule domainMatches_lower) (simp_all add: strtolower_idem assms)
  show ?case
  proof (cases "domain_contains (strtolower (ck_domain ?c)) domain")
    case True
    with cond at show ?thesis
      by (simp add: Let_def)
  next
    case False
    with cond at Cons.IH [OF rest] show ?thesis
      by (simp add: Let_def)
  qed
qed

lemma wildcard_loop_find:
  assumes "strtolower domain = domain"
  shows "\<forall>w \<in> set ws. wc_index w < length (db_cookies db) \<Longrightarrow>
     wildcard_loop db name domain ws =
       map_option (\<lambda>w. Inr (cookie_result ConfWildcard (db_cookies db ! wc_index w)))
         (List.find
            (\<lambda>w. wildcardMatch name (wc_pattern w)
                 \<and> (php_empty domain \<or> php_empty (ck_domain (db_cookies db ! wc_index w))
                    \<or> domain_contains (strtolower (ck_domain (db_cookies db ! wc_index w))) domain))
            ws)"
proof (induction ws)
  case Nil
  then show ?case by simp
next
  case (Cons w ws)
  let ?c = "db_cookies db ! wc_index w"
  from Cons.prems have at: "cookie_at db (wc_index w) = Inr ?c"
    by (simp add: cookie_at_inside)
  from Cons.prems have rest: "\<forall>w \<in> set ws. wc_index w < length (db_cookies db)"
    by simp
  have cond: "(strtolower (ck_domain ?c) = domain
                \<or> domainMatches domain (strtolower (ck_domain ?c)))
              = domain_contains (strtolower (ck_domain ?c)) domain"
    by (rule domainMatches_lower) (simp_all add: strtolower_idem assms)
  show ?case
  proof (cases "wildcardMatch name (wc_pattern w)")
    case False
    with Cons.IH [OF rest] show ?thesis
      by simp
  next
    case True
    show ?thesis
    proof (cases "php_empty domain \<or> php_empty (ck_domain ?c)
        \<or> domain_contains (strtolower (ck_domain ?c)) domain")
      case True
      with \<open>wildcardMatch name (wc_pattern w)\<close> cond at show ?thesis
        by auto
    next
      case False
      with \<open>wildcardMatch name (wc_pattern w)\<close> cond at Cons.IH [OF rest] show ?thesis
        by auto
    qed
  qed
qed

lemma first_index_hd: "l \<noteq> [] \<Longrightarrow> first_index l = Inr (hd l)"
  by (cases l) (simp_all add: first_index_def)

lemma indexes_ok_byName:
  assumes "indexes_ok db" and "byName (db_indexes db) n = Some l"
  shows "l \<noteq> []" and "\<forall>i \<in> set l. i < length (db_cookies db)"
proof -
  from assms(2) have "l \<in> ran (byName (db_indexes db))"
    unfolding ran_def by blast
  with assms(1) show "l \<noteq> []" and "\<forall>i \<in> set l. i < length (db_cookies db)"
    unfolding indexes_ok_def by blast+
qed

lemma indexes_ok_byDomain:
  assumes "indexes_ok db" and "byDomain (db_indexes db) n = Some l"
  shows "l \<noteq> []" and "\<forall>i \<in> set l. i < length (db_cookies db)"
proof -
  from assms(2) have "l \<in> ran (byDomain (db_indexes db))"
    unfolding ran_def by blast
  with assms(1) show "l \<noteq> []" and "\<forall>i \<in> set l. i < length (db_cookies db)"
    unfolding indexes_ok_def by blast+
qed

lemma indexes_ok_wildcards:
  "indexes_ok db \<Longrightarrow> \<forall>w \<in> set (wildcards (db_indexes db)). wc_index w < length (db_cookies db)"
  unfolding indexes_ok_def by blast

lemma resolve_override:
  "overrides (override_key (strtolower name0) (strtolower domain0)) = Some ov \<Longrightarrow>
   resolve db overrides name0 domain0 =
     Inr \<lparr>category = ov_category ov, confidence = ConfOverride, matched = MatchedOverride ov\<rparr>"
  by (simp add: resolve_def Let_def)

lemma resolve_exact:
  assumes ok: "indexes_ok db"
    and no: "overrides (override_key (strtolower name0) (strtolower domain0)) = None"
    and bn: "byName (db_indexes db) (strtolower name0) = Some idxs"
  shows "resolve db overrides name0 domain0 =
     Inr (cookie_result ConfExact
       (case (if php_empty (strtolower domain0) then None
              else List.find (\<lambda>c. domain_contains (strtolower (ck_domain c)) (strtolower domain0))
                     (map (\<lambda>i. db_cookies db ! i) idxs)) of
          Some c \<Rightarrow> c
        | None \<Rightarrow> hd (map (\<lambda>i. db_cookies db ! i) idxs)))"
proof -
  note b = indexes_ok_byName [OF ok bn]
  have fi: "first_index idxs = Inr (hd idxs)"
    using b(1) by (rule first_index_hd)
  have hdin: "hd idxs < length (db_cookies db)"
    using b by (cases idxs) simp_all
  have at: "cookie_at db (hd idxs) = Inr (db_cookies db ! hd idxs)"
    using hdin by (rule cookie_at_inside)
  have hdmap: "hd (map (\<lambda>i. db_cookies db ! i) idxs) = db_cookies db ! hd idxs"
    using b(1) by (simp add: hd_map)
  have loop: "exact_domain_loop db (strtolower domain0) idxs =
       map_option (\<lambda>c. Inr (cookie_result ConfExact c))
         (List.find (\<lambda>c. domain_contains (strtolower (ck_domain c)) (strtolower domain0))
            (map (\<lambda>i. db_cookies db ! i) idxs))"
    using b(2) by (intro exact_domain_loop_find [rule_format]) (simp_all add: strtolower_idem)
  show ?thesis
  proof (cases "php_empty (strtolower domain0)")
    case True
    with no bn fi at hdmap show ?thesis
      by (simp add: resolve_def Let_def)
  next
    case False
    show ?thesis
    proof (cases "List.find (\<lambda>c. domain_contains (strtolower (ck_domain c)) (strtolower domain0))
            (map (\<lambda>i. db_cookies db ! i) idxs)")
      case None
      with False no bn fi at hdmap loop show ?thesis
        by (simp add: resolve_def Let_def)
    next
      case (Some c)
      with False no bn loop show ?thesis
        by (simp add: resolve_def Let_def)
    qed
  qed
qed

lemma resolve_later:
  assumes ok: "indexes_ok db"
    and no: "overrides (override_key (strtolower name0) (strtolower domain0)) = None"
    and bn: "byName (db_indexes db) (strtolower name0) = None"
  shows "resolve db overrides name0 domain0 =
     Inr (case stage_wildcard db (strtolower name0) (strtolower domain0) of
            Some c \<Rightarrow> cookie_result ConfWildcard c
          | None \<Rightarrow>
              (case stage_domain db (strtolower domain0) of
                 Some c \<Rightarrow> cookie_result ConfDomain c
               | None \<Rightarrow> no_match))"
proof -
  have loop: "wildcard_loop db (strtolower name0) (strtolower domain0) (wildcards (db_indexes db)) =
       map_option (\<lambda>w. Inr (cookie_result ConfWildcard (db_cookies db ! wc_index w)))
         (List.find
            (\<lambda>w. wildcardMatch (strtolower name0) (wc_pattern w)
                 \<and> (php_empty (strtolower domain0)
                    \<or> php_empty (ck_domain (db_cookies db ! wc_index w))
                    \<or> domain_contains (strtolower (ck_domain (db_cookies db ! wc_index w)))
                         (strtolower domain0)))
            (wildcards (db_indexes db)))"
    using indexes_ok_wildcards [OF ok]
    by (intro wildcard_loop_find [rule_format]) (simp_all add: strtolower_idem)
  show ?thesis
  proof (cases "stage_wildcard db (strtolower name0) (strtolower domain0)")
    case (Some c)
    then obtain w where
      "List.find
            (\<lambda>w. wildcardMatch (strtolower name0) (wc_pattern w)
                 \<and> (php_empty (strtolower domain0)
                    \<or> php_empty (ck_domain (db_cookies db ! wc_index w))
                    \<or> domain_contains (strtolower (ck_domain (db_cookies db ! wc_index w)))
                         (strtolower domain0)))
            (wildcards (db_indexes db)) = Some w" and "c = db_cookies db ! wc_index w"
      unfolding stage_wildcard_def by auto
    with Some no bn loop show ?thesis
      by (simp add: resolve_def Let_def)
  next
    case None
    then have f: "List.find
            (\<lambda>w. wildcardMatch (strtolower name0) (wc_pattern w)
                 \<and> (php_empty (strtolower domain0)
                    \<or> php_empty (ck_domain (db_cookies db ! wc_index w))
                    \<or> domain_contains (strtolower (ck_domain (db_cookies db ! wc_index w)))
                         (strtolower domain0)))
            (wildcards (db_indexes db)) = None"
      unfolding stage_wildcard_def by simp
    have wl: "wildcard_loop db (strtolower name0) (strtolower domain0) (wildcards (db_indexes db))
        = None"
      using loop f by simp
    show ?thesis
    proof (cases "php_empty (strtolower domain0)")
      case True
      with None no bn wl show ?thesis
        by (simp add: resolve_def Let_def stage_domain_def)
    next
      case False
      show ?thesis
      proof (cases "byDomain (db_indexes db) (strtolower domain0)")
        case nd: None
        with False None no bn wl show ?thesis
          by (simp add: resolve_def Let_def stage_domain_def)
      next
        case (Some idxs)
        note b = indexes_ok_byDomain [OF ok Some]
        have fi: "first_index idxs = Inr (hd idxs)"
          using b(1) by (rule first_index_hd)
        have hdin: "hd idxs < length (db_cookies db)"
          using b by (cases idxs) simp_all
        have at: "cookie_at db (hd idxs) = Inr (db_cookies db ! hd idxs)"
          using hdin by (rule cookie_at_inside)
        from False None Some no bn wl fi at show ?thesis
          by (simp add: resolve_def Let_def stage_domain_def)
      qed
    qed
  qed
qed

section \<open>What wildcardMatch matches\<close>

lemma str_replace_char_append:
  "str_replace_char a r (xs @ ys) = str_replace_char a r xs @ str_replace_char a r ys"
  by (simp add: str_replace_char_def)

lemma str_replace_char_concat:
  "str_replace_char a r (concat xss) = concat (map (str_replace_char a r) xss)"
  by (induction xss) (simp_all add: str_replace_char_append, simp add: str_replace_char_def)

lemma special_chars:
  assumes "c \<in> set preg_special"
  shows "\<not> alnum c" and "c \<noteq> CHR ''0''" and "c \<noteq> CHR 0x00"
  using assms by (auto simp: preg_special_def alnum_def backslash_def)

lemma special_members:
  "CHR ''*'' \<in> set preg_special" "CHR ''?'' \<in> set preg_special" "CHR ''.'' \<in> set preg_special"
  "backslash \<in> set preg_special"
  by (simp_all add: preg_special_def)

lemma backslash_neq:
  "backslash \<noteq> CHR ''*''" "backslash \<noteq> CHR ''?''" "backslash \<noteq> CHR ''0''"
  "CHR ''*'' \<noteq> backslash" "CHR ''?'' \<noteq> backslash" "CHR ''.'' \<noteq> backslash"
  by (simp_all add: backslash_def)

text \<open>The piece of the expression that one character of the pattern turns into.\<close>

lemma regex_body_pieces:
  "regex_body p =
     concat (map (\<lambda>c. if c = CHR 0x00 then [backslash, CHR ''0'', CHR ''0'', CHR ''0'']
                        else if c = CHR ''*'' then [backslash, CHR ''.'', CHR ''*'']
                        else if c = CHR ''?'' then [backslash, CHR ''.'']
                        else if c \<in> set preg_special then [backslash, c]
                        else [c]) p)"
proof -
  have piece: "str_replace_char (CHR ''?'') ''.''
        (str_replace_char (CHR ''*'') ''.*''
           (if c = CHR 0x00 then [backslash, CHR ''0'', CHR ''0'', CHR ''0'']
            else if c \<in> set preg_special then [backslash, c] else [c]))
      = (if c = CHR 0x00 then [backslash, CHR ''0'', CHR ''0'', CHR ''0'']
         else if c = CHR ''*'' then [backslash, CHR ''.'', CHR ''*'']
         else if c = CHR ''?'' then [backslash, CHR ''.'']
         else if c \<in> set preg_special then [backslash, c]
         else [c])" for c
    using special_members by (auto simp: str_replace_char_def backslash_neq)
  show ?thesis
    unfolding regex_body_def preg_quote_def str_replace_char_concat map_map comp_def piece
    by (rule refl)
qed

lemma regex_items_piece:
  assumes "case rest of [] \<Rightarrow> True | q # _ \<Rightarrow> q \<noteq> CHR ''*''"
  shows "regex_items
      ((if c = CHR 0x00 then [backslash, CHR ''0'', CHR ''0'', CHR ''0'']
        else if c = CHR ''*'' then [backslash, CHR ''.'', CHR ''*'']
        else if c = CHR ''?'' then [backslash, CHR ''.'']
        else if c \<in> set preg_special then [backslash, c]
        else [c]) @ rest)
     = map_option (Cons (pattern_item c)) (regex_items rest)"
proof -
  consider (nul) "c = CHR 0x00" | (star) "c = CHR ''*''" | (quest) "c = CHR ''?''"
    | (special) "c \<noteq> CHR 0x00" "c \<noteq> CHR ''*''" "c \<noteq> CHR ''?''" "c \<in> set preg_special"
    | (plain) "c \<noteq> CHR 0x00" "c \<noteq> CHR ''*''" "c \<noteq> CHR ''?''" "c \<notin> set preg_special"
    by blast
  then show ?thesis
  proof cases
    case nul
    then show ?thesis
      by (simp add: pattern_item_def)
  next
    case star
    have "\<not> alnum (CHR ''.'')"
      by (simp add: alnum_def)
    with star show ?thesis
      by (simp add: pattern_item_def)
  next
    case quest
    have "\<not> alnum (CHR ''.'')"
      by (simp add: alnum_def)
    with quest assms show ?thesis
      by (cases rest) (simp_all add: pattern_item_def)
  next
    case special
    with special_chars [of c] assms show ?thesis
      by (cases rest) (simp_all add: pattern_item_def)
  next
    case plain
    from plain(4) special_members(4) have "c \<noteq> backslash"
      by auto
    with plain show ?thesis
      by (simp add: pattern_item_def)
  qed
qed

lemma pieces_no_leading_star:
  "case concat (map (\<lambda>c. if c = CHR 0x00 then [backslash, CHR ''0'', CHR ''0'', CHR ''0'']
                        else if c = CHR ''*'' then [backslash, CHR ''.'', CHR ''*'']
                        else if c = CHR ''?'' then [backslash, CHR ''.'']
                        else if c \<in> set preg_special then [backslash, c]
                        else [c]) p) of
     [] \<Rightarrow> True | q # _ \<Rightarrow> q \<noteq> CHR ''*''"
  by (cases p) (simp_all add: backslash_neq)

lemma regex_items_body: "regex_items (regex_body p) = Some (map pattern_item p)"
  unfolding regex_body_pieces
proof (induction p)
  case Nil
  then show ?case by simp
next
  case (Cons c cs)
  show ?case
    unfolding list.map concat.simps
    by (simp only: regex_items_piece [OF pieces_no_leading_star] Cons.IH option.map)
qed

text \<open>
  \<open>wildcardMatch\<close> compares the lowercased name with the lowercased pattern character
  by character, where a star of the pattern stands for any number of dots and a question
  mark for one dot.
\<close>

lemma wildcardMatch_items:
  "wildcardMatch name pattern =
     match_items (map pattern_item (strtolower pattern)) (strtolower name)"
  by (simp add: wildcardMatch_def regex_items_body)

section \<open>Concrete runs of the matcher\<close>

lemma strtolower_Cons: "strtolower (c # cs) = lower_char c # strtolower cs"
  by (simp add: strtolower_def)

lemma strtolower_empty: "strtolower [] = []"
  by (simp add: strtolower_def)

lemma lower_examples:
  "strtolower ''_ga*'' = ''_ga*''" "strtolower ''_ga'' = ''_ga''" "strtolower ''_gat'' = ''_gat''"
  "strtolower ''_gid_abc'' = ''_gid_abc''" "strtolower ''xga123'' = ''xga123''"
  "strtolower ''_fbp'' = ''_fbp''" "strtolower ''.facebook.com'' = ''.facebook.com''"
  "strtolower ''_FBP'' = ''_fbp''" "strtolower ''www.facebook.com'' = ''www.facebook.com''"
  by (simp_all add: strtolower_Cons strtolower_empty lower_char_def Let_def char_of_eq_iff)

lemma ga_pattern_items:
  "regex_items (regex_body ''_ga*'') = Some [One CHR ''_'', One CHR ''g'', One CHR ''a'', Many CHR ''.'']"
  by (simp add: regex_body_def preg_quote_def str_replace_char_def preg_special_def
      backslash_def alnum_def)

lemma wildcardMatch_ga:
  "wildcardMatch ''_ga'' ''_ga*''" "\<not> wildcardMatch ''_gat'' ''_ga*''"
  "\<not> wildcardMatch ''_gid_abc'' ''_ga*''" "\<not> wildcardMatch ''xga123'' ''_ga*''"
  by (simp_all add: wildcardMatch_def lower_examples ga_pattern_items)

lemma example_indexes:
  "db_cookies example_db = [fbp_cookie, ga_cookie]"
  "byName (db_indexes example_db) = [''_fbp'' \<mapsto> [0]]"
  "byDomain (db_indexes example_db) = [''.facebook.com'' \<mapsto> [0]]"
  "wildcards (db_indexes example_db) = [\<lparr>wc_pattern = ''_ga*'', wc_index = 1\<rparr>]"
  by (simp_all add: example_db_def make_database_def buildIndexes_def index_cookie_def
      bucket_add_def fbp_cookie_def ga_cookie_def lower_examples strtolower_empty php_empty_def
      Let_def)

section \<open>The resolution order of categorize\<close>

lemma stage_override_key:
  "stage_override overrides name domain = overrides (override_key name domain)"
  by (simp add: stage_override_def override_key_def)

lemma resolve_classify_spec:
  assumes ok: "indexes_ok db"
  shows "resolve db overrides name domain = Inr (classify_spec db overrides name domain)"
proof (cases "overrides (override_key (strtolower name) (strtolower domain))")
  case (Some ov)
  then show ?thesis
    by (simp add: resolve_override classify_spec_def stage_override_key Let_def)
next
  case None
  show ?thesis
  proof (cases "byName (db_indexes db) (strtolower name)")
    case (Some idxs)
    have se: "stage_exact db (strtolower name) (strtolower domain) =
        Some (case (if php_empty (strtolower domain) then None
              else List.find (\<lambda>c. domain_contains (strtolower (ck_domain c)) (strtolower domain))
                     (map (\<lambda>i. db_cookies db ! i) idxs)) of
          Some c \<Rightarrow> c
        | None \<Rightarrow> hd (map (\<lambda>i. db_cookies db ! i) idxs))"
      using Some by (simp add: stage_exact_def Let_def split: option.splits)
    show ?thesis
      unfolding resolve_exact [where overrides = overrides and ?name0.0 = name and ?domain0.0 = domain,
          OF ok None Some]
      by (simp add: classify_spec_def Let_def stage_override_key None se cookie_result_def)
  next
    case bn: None
    have se: "stage_exact db (strtolower name) (strtolower domain) = None"
      using bn by (simp add: stage_exact_def)
    show ?thesis
      unfolding resolve_later [where overrides = overrides and ?name0.0 = name and ?domain0.0 = domain,
          OF ok None bn]
      by (simp add: classify_spec_def Let_def stage_override_key None se cookie_result_def
          no_match_def split: option.splits)
  qed
qed

lemma confidence_classify_spec:
  "confidence (classify_spec db overrides name domain) =
     (if stage_override overrides (strtolower name) (strtolower domain) \<noteq> None then ConfOverride
      else if stage_exact db (strtolower name) (strtolower domain) \<noteq> None then ConfExact
      else if stage_wildcard db (strtolower name) (strtolower domain) \<noteq> None then ConfWildcard
      else if stage_domain db (strtolower domain) \<noteq> None then ConfDomain
      else ConfNone)"
  by (simp add: classify_spec_def Let_def split: option.splits)

lemma categorize_after_load:
  assumes "loadDatabase now w = (Inr ok, w')" and "database w' = Some db"
  shows "categorize now name domain w = (resolve db (getOverrides w') name domain, w')"
  using assms by (simp add: categorize_def)

lemma categorize_as_spec:
  assumes "loadDatabase now w = (Inr ok, w')" and "database w' = Some db" and "indexes_ok db"
  shows "categorize now name domain w =
           (Inr (classify_spec db (getOverrides w') name domain), w')
    \<and> confidence (classify_spec db (getOverrides w') name domain) =
       (if stage_override (getOverrides w') (strtolower name) (strtolower domain) \<noteq> None
          then ConfOverride
        else if stage_exact db (strtolower name) (strtolower domain) \<noteq> None then ConfExact
        else if stage_wildcard db (strtolower name) (strtolower domain) \<noteq> None then ConfWildcard
        else if stage_domain db (strtolower domain) \<noteq> None then ConfDomain
        else ConfNone)"
proof
  show "categorize now name domain w =
           (Inr (classify_spec db (getOverrides w') name domain), w')"
    unfolding categorize_after_load [OF assms(1,2)]
    by (simp add: resolve_classify_spec [OF assms(3)])
next
  show "confidence (classify_spec db (getOverrides w') name domain) =
       (if stage_override (getOverrides w') (strtolower name) (strtolower domain) \<noteq> None
          then ConfOverride
        else if stage_exact db (strtolower name) (strtolower domain) \<noteq> None then ConfExact
        else if stage_wildcard db (strtolower name) (strtolower domain) \<noteq> None then ConfWildcard
        else if stage_domain db (strtolower domain) \<noteq> None then ConfDomain
        else ConfNone)"
    by (rule confidence_classify_spec)
qed

text \<open>
  Claim C4.  Once the database is loaded, \<open>categorize\<close> returns what the five stages
  give in their order (override, exact name with the preference for a containing domain,
  wildcard in registration order, domain only, none), and the confidence of the result
  names the first stage that has a match.
\<close>

theorem categorize_resolution_order:
  assumes "loadDatabase now w = (Inr ok, w')" and "database w' = Some db" and "indexes_ok db"
  shows "categorize now name domain w =
           (Inr (classify_spec db (getOverrides w') name domain), w')
    \<and> confidence (classify_spec db (getOverrides w') name domain) =
       (if stage_override (getOverrides w') (strtolower name) (strtolower domain) \<noteq> None
          then ConfOverride
        else if stage_exact db (strtolower name) (strtolower domain) \<noteq> None then ConfExact
        else if stage_wildcard db (strtolower name) (strtolower domain) \<noteq> None then ConfWildcard
        else if stage_domain db (strtolower domain) \<noteq> None then ConfDomain
        else ConfNone)"
  using assms by (rule categorize_as_spec)

lemma example_loaded: "loadDatabase now example_cdb = (Inr True, example_cdb)"
  by (simp add: loadDatabase_def example_cdb_def)

lemma example_ok: "indexes_ok example_db"
  unfolding example_db_def by (rule indexes_ok_make_database)

lemma example_database: "database example_cdb = Some example_db"
  by (simp add: example_cdb_def)

lemma example_no_overrides: "getOverrides example_cdb = Map.empty"
  by (simp add: getOverrides_def example_cdb_def)

lemma example_cookie_domain: "strtolower (ck_domain fbp_cookie) = ''.facebook.com''"
  by (simp add: fbp_cookie_def lower_examples)

lemma suffix_facebook:
  "suffix ''.facebook.com'' ''www.facebook.com''" "\<not> suffix ''.facebook.com'' ''example.org''"
  by (simp_all add: suffix_def append_eq_Cons_conv)

theorem categorize_resolution_order_witness:
  "categorize 1705400000 ''_FBP'' ''www.facebook.com'' example_cdb =
     (Inr \<lparr>category = ''marketing'', confidence = ConfExact, matched = MatchedCookie fbp_cookie\<rparr>,
      example_cdb)"
proof -
  have v: "classify_spec example_db (getOverrides example_cdb) ''_FBP'' ''www.facebook.com'' =
      \<lparr>category = ''marketing'', confidence = ConfExact, matched = MatchedCookie fbp_cookie\<rparr>"
    by (simp add: classify_spec_def stage_override_def stage_exact_def example_no_overrides
        example_indexes lower_examples php_empty_def domain_contains_def example_cookie_domain
        suffix_facebook Let_def)
       (simp add: fbp_cookie_def)
  from categorize_resolution_order [OF example_loaded [of 1705400000] example_database
      example_ok, where name = "''_FBP''" and domain = "''www.facebook.com''"]
  have "categorize 1705400000 ''_FBP'' ''www.facebook.com'' example_cdb =
      (Inr (classify_spec example_db (getOverrides example_cdb) ''_FBP'' ''www.facebook.com''),
       example_cdb)"
    by (rule conjunct1)
  with v show ?thesis
    by simp
qed

section \<open>The wildcard pattern \<open>_ga*\<close>\<close>

lemma stage_wildcard_none:
  assumes "\<forall>w \<in> set (wildcards (db_indexes db)). \<not> wildcardMatch name (wc_pattern w)"
  shows "stage_wildcard db name domain = None"
proof -
  have "List.find
          (\<lambda>w. wildcardMatch name (wc_pattern w)
               \<and> (php_empty domain \<or> php_empty (ck_domain (db_cookies db ! wc_index w))
                  \<or> domain_contains (strtolower (ck_domain (db_cookies db ! wc_index w))) domain))
          (wildcards (db_indexes db)) = None"
    using assms by (auto simp: find_None_iff)
  then show ?thesis
    by (simp add: stage_wildcard_def)
qed

lemma stage_wildcard_some:
  assumes "w \<in> set (wildcards (db_indexes db))" and "wildcardMatch name (wc_pattern w)"
  shows "stage_wildcard db name [] \<noteq> None"
proof -
  have "List.find
          (\<lambda>w. wildcardMatch name (wc_pattern w)
               \<and> (php_empty [] \<or> php_empty (ck_domain (db_cookies db ! wc_index w))
                  \<or> domain_contains (strtolower (ck_domain (db_cookies db ! wc_index w))) []))
          (wildcards (db_indexes db)) \<noteq> None"
    using assms by (auto simp: find_None_iff php_empty_def)
  then show ?thesis
    by (simp add: stage_wildcard_def)
qed

lemma example_overrides_none: "getOverrides example_cdb k = None"
  by (simp add: example_no_overrides)

text \<open>
  Claim C3, as the code has it.  For a loaded corpus that holds the wildcard pattern
  \<open>_ga*\<close> and has neither an override nor an exact record for \<open>_ga\<close>, \<open>categorize\<close>
  without a domain returns a wildcard match for \<open>_ga\<close>.  The pattern matches neither
  \<open>_gid_abc\<close> nor \<open>xga123\<close>: in a corpus whose wildcard patterns are all \<open>_ga*\<close>, no domain
  gives a wildcard match for these two names.
\<close>

theorem wildcard_ga_star:
  assumes "loadDatabase now w = (Inr ok, w')" and "database w' = Some db" and "indexes_ok db"
    and "wc \<in> set (wildcards (db_indexes db))" and "wc_pattern wc = ''_ga*''"
    and "getOverrides w' ''_ga'' = None" and "byName (db_indexes db) ''_ga'' = None"
  shows "(\<exists>c. categorize now ''_ga'' [] w = (Inr (cookie_result ConfWildcard c), w'))
    \<and> \<not> wildcardMatch ''_gid_abc'' (wc_pattern wc)
    \<and> \<not> wildcardMatch ''xga123'' (wc_pattern wc)
    \<and> ((\<forall>x \<in> set (wildcards (db_indexes db)). wc_pattern x = ''_ga*'') \<longrightarrow>
         (\<forall>domain. \<exists>r r'. categorize now ''_gid_abc'' domain w = (Inr r, w')
              \<and> confidence r \<noteq> ConfWildcard
              \<and> categorize now ''xga123'' domain w = (Inr r', w')
              \<and> confidence r' \<noteq> ConfWildcard))"
proof (intro conjI)
  have m: "wildcardMatch ''_ga'' (wc_pattern wc)"
    by (simp add: assms(5) wildcardMatch_ga)
  have sw: "stage_wildcard db ''_ga'' [] \<noteq> None"
    using assms(4) m by (rule stage_wildcard_some)
  then obtain c where c: "stage_wildcard db ''_ga'' [] = Some c"
    by blast
  have so: "stage_override (getOverrides w') ''_ga'' [] = None"
    by (simp add: stage_override_def php_empty_def assms(6))
  have se: "stage_exact db ''_ga'' [] = None"
    by (simp add: stage_exact_def assms(7))
  have cs: "classify_spec db (getOverrides w') ''_ga'' [] = cookie_result ConfWildcard c"
    by (simp add: classify_spec_def Let_def lower_examples strtolower_empty so se c
        cookie_result_def)
  have "categorize now ''_ga'' [] w = (Inr (classify_spec db (getOverrides w') ''_ga'' []), w')"
    using categorize_as_spec [OF assms(1,2,3), where name = "''_ga''" and domain = "[]"]
    by (rule conjunct1)
  then have "categorize now ''_ga'' [] w = (Inr (cookie_result ConfWildcard c), w')"
    by (simp only: cs)
  then show "\<exists>c. categorize now ''_ga'' [] w = (Inr (cookie_result ConfWildcard c), w')"
    by (rule exI)
next
  show "\<not> wildcardMatch ''_gid_abc'' (wc_pattern wc)"
    by (simp add: assms(5) wildcardMatch_ga)
next
  show "\<not> wildcardMatch ''xga123'' (wc_pattern wc)"
    by (simp add: assms(5) wildcardMatch_ga)
next
  show "(\<forall>x \<in> set (wildcards (db_indexes db)). wc_pattern x = ''_ga*'') \<longrightarrow>
         (\<forall>domain. \<exists>r r'. categorize now ''_gid_abc'' domain w = (Inr r, w')
              \<and> confidence r \<noteq> ConfWildcard
              \<and> categorize now ''xga123'' domain w = (Inr r', w')
              \<and> confidence r' \<noteq> ConfWildcard)"
  proof (intro impI allI)
    fix domain
    assume all: "\<forall>x \<in> set (wildcards (db_indexes db)). wc_pattern x = ''_ga*''"
    have n1: "stage_wildcard db ''_gid_abc'' (strtolower domain) = None"
      using all by (intro stage_wildcard_none) (simp add: wildcardMatch_ga)
    have n2: "stage_wildcard db ''xga123'' (strtolower domain) = None"
      using all by (intro stage_wildcard_none) (simp add: wildcardMatch_ga)
    note T1 = categorize_as_spec [OF assms(1,2,3), where name = "''_gid_abc''"
        and domain = domain]
    note T2 = categorize_as_spec [OF assms(1,2,3), where name = "''xga123''"
        and domain = domain]
    have c1: "confidence (classify_spec db (getOverrides w') ''_gid_abc'' domain) \<noteq> ConfWildcard"
      by (simp add: confidence_classify_spec lower_examples n1)
    have c2: "confidence (classify_spec db (getOverrides w') ''xga123'' domain) \<noteq> ConfWildcard"
      by (simp add: confidence_classify_spec lower_examples n2)
    from T1 T2 c1 c2
    show "\<exists>r r'. categorize now ''_gid_abc'' domain w = (Inr r, w')
              \<and> confidence r \<noteq> ConfWildcard
              \<and> categorize now ''xga123'' domain w = (Inr r', w')
              \<and> confidence r' \<noteq> ConfWildcard"
      by blast
  qed
qed

lemma example_classify_none:
  assumes "\<not> wildcardMatch (strtolower n) ''_ga*''" and "strtolower n \<noteq> ''_fbp''"
  shows "classify_spec example_db (getOverrides example_cdb) n [] = no_match"
proof -
  have sw: "stage_wildcard example_db (strtolower n) [] = None"
    by (intro stage_wildcard_none) (simp add: example_indexes assms(1))
  have se: "stage_exact example_db (strtolower n) [] = None"
    using assms(2) by (simp add: stage_exact_def example_indexes)
  show ?thesis
    by (simp add: classify_spec_def Let_def strtolower_empty stage_override_def
        example_overrides_none se sw stage_domain_def php_empty_def no_match_def)
qed

theorem wildcard_ga_star_witness:
  "(\<exists>c. categorize 1705400000 ''_ga'' [] example_cdb =
         (Inr (cookie_result ConfWildcard c), example_cdb))
   \<and> \<not> wildcardMatch ''_gid_abc'' ''_ga*''
   \<and> \<not> wildcardMatch ''xga123'' ''_ga*''
   \<and> (\<exists>r. categorize 1705400000 ''xga123'' ''example.org'' example_cdb = (Inr r, example_cdb)
         \<and> confidence r \<noteq> ConfWildcard)"
proof -
  let ?wc = "\<lparr>wc_pattern = ''_ga*'', wc_index = 1\<rparr>"
  have h4: "?wc \<in> set (wildcards (db_indexes example_db))"
    by (simp add: example_indexes)
  have h5: "wc_pattern ?wc = ''_ga*''"
    by simp
  have h6: "getOverrides example_cdb ''_ga'' = None"
    by (rule example_overrides_none)
  have h7: "byName (db_indexes example_db) ''_ga'' = None"
    by (simp add: example_indexes)
  have hall: "\<forall>x \<in> set (wildcards (db_indexes example_db)). wc_pattern x = ''_ga*''"
    by (simp add: example_indexes)
  note T = wildcard_ga_star [OF example_loaded [of 1705400000] example_database example_ok
      h4 h5 h6 h7]
  from T have a: "\<exists>c. categorize 1705400000 ''_ga'' [] example_cdb =
         (Inr (cookie_result ConfWildcard c), example_cdb)"
    by (rule conjunct1)
  from T have b: "\<not> wildcardMatch ''_gid_abc'' ''_ga*''" and c: "\<not> wildcardMatch ''xga123'' ''_ga*''"
    by simp_all
  from T hall have "\<forall>domain. \<exists>r r'. categorize 1705400000 ''_gid_abc'' domain example_cdb =
         (Inr r, example_cdb) \<and> confidence r \<noteq> ConfWildcard
       \<and> categorize 1705400000 ''xga123'' domain example_cdb = (Inr r', example_cdb)
       \<and> confidence r' \<noteq> ConfWildcard"
    by blast
  then have d: "\<exists>r. categorize 1705400000 ''xga123'' ''example.org'' example_cdb =
         (Inr r, example_cdb) \<and> confidence r \<noteq> ConfWildcard"
    by blast
  from a b c d show ?thesis
    by (intro conjI)
qed

text \<open>
  The example corpus holds \<open>_ga*\<close>, and \<open>categorize\<close> finds nothing for \<open>_gid_abc\<close>: the
  name does not begin with \<open>_ga\<close>.
\<close>

theorem wildcard_gid_abc_counterexample:
  "categorize 1705400000 ''_gid_abc'' [] example_cdb =
     (Inr \<lparr>category = ''uncategorized'', confidence = ConfNone, matched = MatchedNull\<rparr>,
      example_cdb)"
proof -
  have "classify_spec example_db (getOverrides example_cdb) ''_gid_abc'' [] = no_match"
    by (rule example_classify_none) (simp_all add: lower_examples wildcardMatch_ga)
  with categorize_as_spec [OF example_loaded [of 1705400000] example_database
      example_ok, where name = "''_gid_abc''" and domain = "[]"]
  show ?thesis
    by (simp add: no_match_def)
qed

text \<open>
  The same corpus finds nothing for \<open>_gat\<close> either.  \<open>preg_quote\<close> has put a backslash
  before the star when \<open>str_replace\<close> writes \<open>.*\<close> in its place, so the expression is
  \<open>/^_ga\\.*$/\<close>: the star of a pattern stands for any number of dots, and a question mark
  for one dot.
\<close>

lemma wildcard_gat_not_matched:
  "categorize 1705400000 ''_gat'' [] example_cdb = (Inr no_match, example_cdb)"
proof -
  have "classify_spec example_db (getOverrides example_cdb) ''_gat'' [] = no_match"
    by (rule example_classify_none) (simp_all add: lower_examples wildcardMatch_ga)
  with categorize_as_spec [OF example_loaded [of 1705400000] example_database
      example_ok, where name = "''_gat''" and domain = "[]"]
  show ?thesis
    by simp
qed

section \<open>Overrides\<close>

lemma updateDatabase_overridesFile:
  "overridesFile (snd (updateDatabase now force w)) = overridesFile w"
  by (simp add: updateDatabase_def Let_def split: option.splits stored.splits)

lemma loadDatabase_overridesFile: "overridesFile (snd (loadDatabase now w)) = overridesFile w"
  by (simp add: loadDatabase_def updateDatabase_overridesFile split: stored.splits)

lemma addOverride_key:
  "strtolower name @ (if \<not> php_empty domain then CHR ''@'' # strtolower domain else [])
     = override_key (strtolower name) (strtolower domain)"
  by (simp add: override_key_def php_empty_strtolower)

lemma addOverride_written:
  assumes "writable w"
  shows "addOverride now name domain cat reason w =
     (Inr True,
      w\<lparr>overridesFile := Holds
          \<lparr>od_overrides =
             (getOverrides w)(override_key (strtolower name) (strtolower domain) \<mapsto>
               \<lparr>ov_name = name, ov_domain = domain, ov_category = cat, ov_reason = reason,
                ov_timestamp = now\<rparr>),
           od_lastModified = Some now\<rparr>\<rparr>)"
proof (cases "overridesFile w")
  case (Holds d)
  with assms show ?thesis
    by (simp add: addOverride_def getOverrides_def addOverride_key Let_def)
next
  case Missing
  with assms show ?thesis
    by (simp add: addOverride_def getOverrides_def addOverride_key Let_def)
next
  case Garbled
  with assms show ?thesis
    by (simp add: addOverride_def getOverrides_def addOverride_key Let_def)
qed

lemma getOverrides_after_add:
  assumes "writable w"
  shows "getOverrides (snd (addOverride now name domain cat reason w)) =
     (getOverrides w)(override_key (strtolower name) (strtolower domain) \<mapsto>
        \<lparr>ov_name = name, ov_domain = domain, ov_category = cat, ov_reason = reason,
         ov_timestamp = now\<rparr>)"
  by (simp add: addOverride_written [OF assms] getOverrides_def)

lemma addOverride_database:
  "database (snd (addOverride now name domain cat reason w)) = database w"
  by (simp add: addOverride_def Let_def)

lemma getOverrides_cong: "overridesFile w = overridesFile w' \<Longrightarrow> getOverrides w = getOverrides w'"
  by (simp add: getOverrides_def)

text \<open>
  Claim C7.  After an \<open>addOverride\<close> whose write succeeds, a \<open>categorize\<close> that has the
  database at hand returns the category of the override with confidence \<open>override\<close>,
  whatever the letter case of the name and the domain it is called with.  A second
  \<open>addOverride\<close> for the same key leaves the file as if only the second had been made: the
  entry and its timestamp are those of the second call.
\<close>

theorem addOverride_wins:
  assumes "writable w"
    and "strtolower name' = strtolower name" and "strtolower domain' = strtolower domain"
    and "loadDatabase now' (snd (addOverride now name domain cat reason w)) = (Inr ok, w')"
    and "database w' = Some db"
  shows "fst (categorize now' name' domain' (snd (addOverride now name domain cat reason w))) =
      Inr \<lparr>category = cat, confidence = ConfOverride,
           matched = MatchedOverride
             \<lparr>ov_name = name, ov_domain = domain, ov_category = cat, ov_reason = reason,
              ov_timestamp = now\<rparr>\<rparr>
    \<and> addOverride now2 name' domain' cat2 reason2
          (snd (addOverride now name domain cat reason w))
        = addOverride now2 name' domain' cat2 reason2 w"
proof
  let ?w1 = "snd (addOverride now name domain cat reason w)"
  let ?ov = "\<lparr>ov_name = name, ov_domain = domain, ov_category = cat, ov_reason = reason,
              ov_timestamp = now\<rparr>"
  have "overridesFile w' = overridesFile ?w1"
    using loadDatabase_overridesFile [of now' ?w1] assms(4) by simp
  then have "getOverrides w' = getOverrides ?w1"
    by (rule getOverrides_cong)
  then have g: "getOverrides w' (override_key (strtolower name') (strtolower domain')) = Some ?ov"
    by (simp add: getOverrides_after_add [OF assms(1)] assms(2,3))
  have "categorize now' name' domain' ?w1 = (resolve db (getOverrides w') name' domain', w')"
    using assms(4,5) by (rule categorize_after_load)
  then show "fst (categorize now' name' domain' ?w1) =
      Inr \<lparr>category = cat, confidence = ConfOverride, matched = MatchedOverride ?ov\<rparr>"
    by (simp add: resolve_override [where overrides = "getOverrides w'" and db = db, OF g])
next
  let ?w1 = "snd (addOverride now name domain cat reason w)"
  have wr: "writable ?w1"
    using assms(1) by (simp add: addOverride_written [OF assms(1)])
  have g1: "getOverrides ?w1 =
     (getOverrides w)(override_key (strtolower name) (strtolower domain) \<mapsto>
        \<lparr>ov_name = name, ov_domain = domain, ov_category = cat, ov_reason = reason,
         ov_timestamp = now\<rparr>)"
    using assms(1) by (rule getOverrides_after_add)
  have w1: "?w1\<lparr>overridesFile := x\<rparr> = w\<lparr>overridesFile := x\<rparr>" for x
    by (simp add: addOverride_written [OF assms(1)])
  let ?ov2 = "\<lparr>ov_name = name', ov_domain = domain', ov_category = cat2, ov_reason = reason2,
      ov_timestamp = now2\<rparr>"
  let ?key = "override_key (strtolower name') (strtolower domain')"
  have "addOverride now2 name' domain' cat2 reason2 ?w1 =
      (Inr True, ?w1\<lparr>overridesFile := Holds
          \<lparr>od_overrides = (getOverrides ?w1)(?key \<mapsto> ?ov2), od_lastModified = Some now2\<rparr>\<rparr>)"
    using wr by (rule addOverride_written)
  also have "\<dots> =
      (Inr True, w\<lparr>overridesFile := Holds
          \<lparr>od_overrides = (getOverrides w)(?key \<mapsto> ?ov2), od_lastModified = Some now2\<rparr>\<rparr>)"
    by (simp add: w1 g1 assms(2,3))
  also have "\<dots> = addOverride now2 name' domain' cat2 reason2 w"
    using assms(1) by (rule addOverride_written [symmetric])
  finally show "addOverride now2 name' domain' cat2 reason2 ?w1
        = addOverride now2 name' domain' cat2 reason2 w" .
qed

theorem addOverride_wins_witness:
  "fst (categorize 1705400000 ''_FBP'' []
          (snd (addOverride 1705390000 ''_fbp'' [] ''necessary'' ''first party'' example_cdb))) =
      Inr \<lparr>category = ''necessary'', confidence = ConfOverride,
           matched = MatchedOverride
             \<lparr>ov_name = ''_fbp'', ov_domain = [], ov_category = ''necessary'',
              ov_reason = ''first party'', ov_timestamp = 1705390000\<rparr>\<rparr>
   \<and> addOverride 1705400000 ''_FBP'' [] ''marketing'' ''again''
        (snd (addOverride 1705390000 ''_fbp'' [] ''necessary'' ''first party'' example_cdb))
      = addOverride 1705400000 ''_FBP'' [] ''marketing'' ''again'' example_cdb"
proof -
  let ?w1 = "snd (addOverride 1705390000 ''_fbp'' [] ''necessary'' ''first party'' example_cdb)"
  have h1: "writable example_cdb"
    by (simp add: example_cdb_def)
  have h2: "strtolower ''_FBP'' = strtolower ''_fbp''"
    by (simp add: lower_examples)
  have h3: "strtolower ([] :: string) = strtolower []"
    by simp
  have db: "database ?w1 = Some example_db"
    by (simp add: addOverride_database example_database)
  then have h4: "loadDatabase 1705400000 ?w1 = (Inr True, ?w1)"
    by (simp add: loadDatabase_def)
  show ?thesis
    using addOverride_wins [OF h1 h2 h3 h4 db] .
qed

section \<open>An unavailable corpus\<close>

lemma categorize_loaded:
  "database w = Some db \<Longrightarrow>
   categorize now name domain w = (resolve db (getOverrides w) name domain, w)"
  by (simp add: categorize_def loadDatabase_def)

lemma categorize_cached:
  "database w = None \<Longrightarrow> cacheFile w = Holds db \<Longrightarrow>
   categorize now name domain w =
     (resolve db (getOverrides w) name domain, w\<lparr>database := Some db\<rparr>)"
  by (simp add: categorize_def loadDatabase_def getOverrides_def)

lemma categorize_unreadable_cache:
  "database w = None \<Longrightarrow> cacheFile w = Garbled \<Longrightarrow>
   categorize now name domain w = (Inr no_match, w)"
  by (simp add: categorize_def loadDatabase_def)

lemma categorize_no_cache_offline:
  "database w = None \<Longrightarrow> cacheFile w = Missing \<Longrightarrow> csv_rows w = None \<Longrightarrow>
   categorize now name domain w =
     (Inl (Exception ''Failed to download Open Cookie Database''), w)"
  by (simp add: categorize_def loadDatabase_def updateDatabase_def)

text \<open>
  Claim C8 on a server without a cache file, when the download fails: \<open>categorize\<close> ends
  with the exception of \<open>updateDatabase\<close>.  The fallback result of \<open>categorize\<close> is only
  reached when a cache file exists and cannot be read (\<open>categorize_unreadable_cache\<close>).
\<close>

theorem categorize_offline_throws:
  "categorize 1705400000 ''_ga'' [] offline_cdb =
     (Inl (Exception ''Failed to download Open Cookie Database''), offline_cdb)"
  by (rule categorize_no_cache_offline) (simp_all add: offline_cdb_def)

section \<open>What the widget's operations leave alone\<close>


lemma handleScript_frame:
  "next_node (handleScript n s) = next_node s"
  "pending (handleScript n s) = pending s"
  "consent (handleScript n s) = consent s"
  "observing (handleScript n s) = observing s"
  "m \<noteq> n \<Longrightarrow> heap (handleScript n s) m = heap s m"
  by (simp_all add: handleScript_def emit_def update_node_def split: option.splits)

lemma fold_handleScript_frame:
  "next_node (fold handleScript ns s) = next_node s"
  "pending (fold handleScript ns s) = pending s"
  "consent (fold handleScript ns s) = consent s"
  "observing (fold handleScript ns s) = observing s"
  "m \<notin> set ns \<Longrightarrow> heap (fold handleScript ns s) m = heap s m"
  by (induction ns arbitrary: s) (simp_all add: handleScript_frame)

lemma deliver_frame:
  "next_node (deliver s) = next_node s"
  "pending (deliver s) = []"
  "consent (deliver s) = consent s"
  "observing (deliver s) = observing s"
  "m \<notin> set (pending s) \<Longrightarrow> heap (deliver s) m = heap s m"
  by (simp_all add: deliver_def fold_handleScript_frame)

lemma fresh_only_refl: "fresh_only s s"
  by (simp add: fresh_only_def)

lemma fresh_only_trans: "fresh_only s s' \<Longrightarrow> fresh_only s' s'' \<Longrightarrow> fresh_only s s''"
  unfolding fresh_only_def by (fastforce simp: less_le_trans)

lemma unblock_step_fresh:
  "fresh_only s
     (emit e
        (s\<lparr>heap := (heap s)(n := (heap s n)\<lparr>parentNode := False\<rparr>,
                             next_node s := \<lparr>attributes = a, textContent = t, parentNode = True\<rparr>),
            next_node := Suc (next_node s),
            pending := (if observing s then pending s @ [next_node s] else pending s)\<rparr>))"
  by (auto simp: fresh_only_def emit_def)

lemma unblock_each_fresh: "fresh_only s (snd (unblock_each bs st s))"
proof (induction bs st s rule: unblock_each.induct)
  case (1 st s)
  then show ?case by (simp add: fresh_only_refl)
next
  case (2 n cat rest st s)
  show ?case
  proof (cases "consented st cat \<and> script_type (heap s n) = ''text/plain''")
    case False
    with 2 show ?thesis by auto
  next
    case True
    show ?thesis
    proof (cases "parentNode (heap s n)")
      case False
      with True show ?thesis
        by (auto simp: Let_def fresh_only_def)
    next
      case attached: True
      let ?new = "next_node s"
      let ?newScript = "\<lparr>attributes = copy_attributes (attributes (heap s n)),
                          textContent = textContent (heap s n), parentNode = False\<rparr>"
      let ?s1 = "s\<lparr>heap := (heap s)(?new := ?newScript), next_node := Suc ?new\<rparr>"
      let ?s2 = "emit (ScriptExecuted n ?new cat)
                      (?s1\<lparr>heap := (heap ?s1)(n := (heap ?s1 n)\<lparr>parentNode := False\<rparr>,
                                               ?new := ?newScript\<lparr>parentNode := True\<rparr>),
                          pending := (if observing ?s1 then pending ?s1 @ [?new] else pending ?s1)\<rparr>)"
      have step: "fresh_only s ?s2"
        by (auto simp: fresh_only_def emit_def)
      have ih: "fresh_only ?s2 (snd (unblock_each rest st ?s2))"
        using True attached by (intro "2.IH"(1)) simp_all
      have "unblock_each ((n, cat) # rest) st s = unblock_each rest st ?s2"
        using True attached by (simp add: Let_def)
      with fresh_only_trans [OF step ih] show ?thesis
        by simp
    qed
  qed
qed

section \<open>Consent changes and the elements that exist\<close>

lemma getSessionId_frame:
  "heap (snd (getSessionId rnd s)) = heap s"
  "next_node (snd (getSessionId rnd s)) = next_node s"
  "pending (snd (getSessionId rnd s)) = pending s"
  "consent (snd (getSessionId rnd s)) = consent s"
  "observing (snd (getSessionId rnd s)) = observing s"
  "blockedScripts (snd (getSessionId rnd s)) = blockedScripts s"
  "effects (snd (getSessionId rnd s)) = effects s"
  "localStorage (snd (getSessionId rnd s)) = localStorage s"
  by (simp_all add: getSessionId_def split: option.splits)

lemma logConsent_frame:
  "heap (logConsent rnd d s) = heap s"
  "next_node (logConsent rnd d s) = next_node s"
  "pending (logConsent rnd d s) = pending s"
  "consent (logConsent rnd d s) = consent s"
  "observing (logConsent rnd d s) = observing s"
  "blockedScripts (logConsent rnd d s) = blockedScripts s"
  "localStorage (logConsent rnd d s) = localStorage s"
  "effects (logConsent rnd d s) =
     effects s @ [log_effect (fst (getSessionId rnd s)) d (snd (getSessionId rnd s))]"
proof -
  obtain sid s1 where g: "getSessionId rnd s = (sid, s1)"
    by (cases "getSessionId rnd s")
  have fr: "heap s1 = heap s" "next_node s1 = next_node s" "pending s1 = pending s"
    "consent s1 = consent s" "observing s1 = observing s" "blockedScripts s1 = blockedScripts s"
    "localStorage s1 = localStorage s" "effects s1 = effects s"
    using getSessionId_frame [of rnd s] by (simp_all add: g)
  show "heap (logConsent rnd d s) = heap s"
    "next_node (logConsent rnd d s) = next_node s"
    "pending (logConsent rnd d s) = pending s"
    "consent (logConsent rnd d s) = consent s"
    "observing (logConsent rnd d s) = observing s"
    "blockedScripts (logConsent rnd d s) = blockedScripts s"
    "localStorage (logConsent rnd d s) = localStorage s"
    "effects (logConsent rnd d s) =
       effects s @ [log_effect (fst (getSessionId rnd s)) d (snd (getSessionId rnd s))]"
    by (simp_all add: logConsent_def g emit_def fr)
qed

lemma before_apply_frame:
  "heap (before_apply rnd now d s) = heap s"
  "next_node (before_apply rnd now d s) = next_node s"
  "pending (before_apply rnd now d s) = pending s"
  "observing (before_apply rnd now d s) = observing s"
  "blockedScripts (before_apply rnd now d s) = blockedScripts s"
  "consent (before_apply rnd now d s) =
     Some \<lparr>cr_state = d, cr_timestamp = now, cr_version = version\<rparr>"
  "localStorage (before_apply rnd now d s) =
     (if storage_ok s then Some \<lparr>cr_state = d, cr_timestamp = now, cr_version = version\<rparr>
      else localStorage s)"
  by (simp_all add: before_apply_def logConsent_frame emit_def)

lemma saveConsent_apply:
  "saveConsent rnd now d s =
     (case applyConsent (before_apply rnd now d s) of
        (Some e, s4) \<Rightarrow> (Some e, s4)
      | (None, s4) \<Rightarrow> (None, emit (Dispatched ''cmp:consent-changed'' d) s4))"
  by (simp add: saveConsent_def before_apply_def Let_def)

lemma applyConsent_unblock:
  "consent s = Some c \<Longrightarrow>
   applyConsent s =
     (case unblock_each (blockedScripts s) (cr_state c) s of
        (None, s') \<Rightarrow> (None, s'\<lparr>blockedScripts := []\<rparr>)
      | (Some e, s') \<Rightarrow> (Some e, s'))"
  by (simp add: applyConsent_def)

lemma saveConsent_fresh:
  "fresh_only (before_apply rnd now d s) (snd (saveConsent rnd now d s))"
proof -
  let ?b = "before_apply rnd now d s"
  let ?c = "\<lparr>cr_state = d, cr_timestamp = now, cr_version = version\<rparr>"
  have c: "consent ?b = Some ?c"
    by (simp add: before_apply_frame)
  obtain e s' where u: "unblock_each (blockedScripts ?b) d ?b = (e, s')"
    by (cases "unblock_each (blockedScripts ?b) d ?b")
  have f: "fresh_only ?b s'"
    using unblock_each_fresh [of ?b "blockedScripts ?b" d] u by simp
  show ?thesis
  proof (cases e)
    case None
    with u c have "snd (saveConsent rnd now d s) =
        emit (Dispatched ''cmp:consent-changed'' d) (s'\<lparr>blockedScripts := []\<rparr>)"
      by (simp add: saveConsent_apply applyConsent_unblock)
    with f show ?thesis
      by (simp add: fresh_only_def emit_def)
  next
    case (Some err)
    with u c have "snd (saveConsent rnd now d s) = s'"
      by (simp add: saveConsent_apply applyConsent_unblock)
    with f show ?thesis
      by simp
  qed
qed

lemma consent_change_kept:
  assumes "pending s = []"
  shows "next_node s \<le> next_node (consent_change rnd now d s)"
    and "pending (consent_change rnd now d s) = []"
    and "observing (consent_change rnd now d s) = observing s"
    and "consent (consent_change rnd now d s) =
           Some \<lparr>cr_state = d, cr_timestamp = now, cr_version = version\<rparr>"
    and "m < next_node s \<Longrightarrow>
           attributes (heap (consent_change rnd now d s) m) = attributes (heap s m)"
proof -
  let ?b = "before_apply rnd now d s"
  let ?s' = "snd (saveConsent rnd now d s)"
  have f: "fresh_only ?b ?s'"
    by (rule saveConsent_fresh)
  have cc: "consent_change rnd now d s = deliver ?s'"
    by (simp add: consent_change_def updateConsent_def)
  from f show "next_node s \<le> next_node (consent_change rnd now d s)"
    by (simp add: cc deliver_frame fresh_only_def before_apply_frame)
  show "pending (consent_change rnd now d s) = []"
    by (simp add: cc deliver_frame)
  from f show "observing (consent_change rnd now d s) = observing s"
    by (simp add: cc deliver_frame fresh_only_def before_apply_frame)
  from f show "consent (consent_change rnd now d s) =
           Some \<lparr>cr_state = d, cr_timestamp = now, cr_version = version\<rparr>"
    by (simp add: cc deliver_frame fresh_only_def before_apply_frame)
  show "attributes (heap (consent_change rnd now d s) m) = attributes (heap s m)"
    if m: "m < next_node s"
  proof -
    from f assms have "\<forall>k \<in> set (pending ?s'). next_node s \<le> k"
      by (simp add: fresh_only_def before_apply_frame)
    with m have "m \<notin> set (pending ?s')"
      by auto
    then have "heap (deliver ?s') m = heap ?s' m"
      by (rule deliver_frame)
    moreover from f m have "attributes (heap ?s' m) = attributes (heap s m)"
      by (simp add: fresh_only_def before_apply_frame)
    ultimately show ?thesis
      by (simp add: cc)
  qed
qed

lemma consent_changes_kept:
  "pending s = [] \<Longrightarrow>
   next_node s \<le> next_node (consent_changes rnd ds s)
   \<and> pending (consent_changes rnd ds s) = []
   \<and> observing (consent_changes rnd ds s) = observing s
   \<and> (\<forall>m < next_node s. attributes (heap (consent_changes rnd ds s) m) = attributes (heap s m))"
proof (induction ds arbitrary: s)
  case Nil
  then show ?case by simp
next
  case (Cons x ds)
  obtain now d where x: "x = (now, d)"
    by (cases x)
  let ?s1 = "consent_change rnd now d s"
  note k = consent_change_kept [OF Cons.prems, where rnd = rnd and now = now and d = d]
  have ih: "next_node ?s1 \<le> next_node (consent_changes rnd ds ?s1)
   \<and> pending (consent_changes rnd ds ?s1) = []
   \<and> observing (consent_changes rnd ds ?s1) = observing ?s1
   \<and> (\<forall>m < next_node ?s1. attributes (heap (consent_changes rnd ds ?s1) m)
          = attributes (heap ?s1 m))"
    using k(2) by (rule Cons.IH)
  show ?case
    unfolding x consent_changes.simps
    using ih k(1) k(3) k(5) by (auto simp: less_le_trans)
qed

lemma consent_changes_last:
  "pending s = [] \<Longrightarrow> ds \<noteq> [] \<Longrightarrow>
   consent (consent_changes rnd ds s) =
     Some \<lparr>cr_state = snd (last ds), cr_timestamp = fst (last ds), cr_version = version\<rparr>"
proof (induction ds arbitrary: s)
  case Nil
  then show ?case by simp
next
  case (Cons x ds)
  obtain now d where x: "x = (now, d)"
    by (cases x)
  note k = consent_change_kept [OF Cons.prems(1), where rnd = rnd and now = now and d = d]
  show ?case
  proof (cases ds)
    case Nil
    with x k(4) show ?thesis by simp
  next
    case (Cons y ys)
    then have "ds \<noteq> []" by simp
    with Cons.IH [OF k(2)] x show ?thesis
      by simp
  qed
qed

section \<open>A newly discovered element\<close>

lemma discover_new:
  assumes "pending s = []" and "observing s"
  shows "discover attrs text s =
     (handleScript (next_node s)
        (s\<lparr>heap := (heap s)(next_node s :=
               \<lparr>attributes = attrs, textContent = text, parentNode = True\<rparr>),
           next_node := Suc (next_node s), pending := [next_node s]\<rparr>))\<lparr>pending := []\<rparr>"
  using assms by (simp add: discover_def deliver_def insert_script_def)

lemma discover_kept:
  assumes "pending s = []" and "observing s" and "m < next_node s"
  shows "heap (discover attrs text s) m = heap s m"
  using assms by (simp add: discover_new handleScript_frame)

lemma discover_blocked:
  assumes "pending s = []" and "observing s"
    and "map_of attrs ''data-category'' = Some c" and "c \<noteq> []" and "c \<noteq> ''necessary''"
    and "\<not> has_consent s c" and "map_of attrs ''type'' = None"
  shows "gate_of (heap (discover attrs text s) (next_node s)) = Blocked"
proof -
  let ?nd = "\<lparr>attributes = attrs, textContent = text, parentNode = True\<rparr>"
  let ?s0 = "s\<lparr>heap := (heap s)(next_node s := ?nd),
           next_node := Suc (next_node s), pending := [next_node s]\<rparr>"
  have hc: "\<not> has_consent ?s0 c"
    using assms(6) by (simp add: has_consent_def)
  have ty: "script_type (heap ?s0 (next_node s)) \<noteq> ''text/plain''"
    using assms(7) by (simp add: script_type_def getAttribute_def)
  have cat: "getAttribute (heap ?s0 (next_node s)) ''data-category'' = Some c"
    using assms(3) by (simp add: getAttribute_def)
  have "heap (handleScript (next_node s) ?s0) (next_node s) =
      (setAttribute ''data-blocked'' ''true'' \<circ> setAttribute ''type'' ''text/plain'') ?nd"
    using hc ty cat assms(4,5)
    by (simp add: handleScript_def emit_def update_node_def)
  then have "heap (discover attrs text s) (next_node s) =
      (setAttribute ''data-blocked'' ''true'' \<circ> setAttribute ''type'' ''text/plain'') ?nd"
    by (simp add: discover_new [OF assms(1,2)])
  then show ?thesis
    by (simp add: gate_of_def script_type_def getAttribute_def setAttribute_def
        update_conv')
qed

section \<open>The example pages\<close>


lemma consented_examples:
  "consented also_analytics ''analytics''" "\<not> consented only_preferences ''analytics''"
  "consented only_preferences ''preferences''"
  by (simp_all add: consented_def also_analytics_def only_preferences_def)

lemma analytics_script_attrs:
  "map_of analytics_script ''data-category'' = Some ''analytics''"
  "map_of analytics_script ''type'' = None"
  "map_of analytics_script ''data-blocked'' = None"
  by (simp_all add: analytics_script_def)


section \<open>The effects of saveConsent\<close>

lemma executed_append: "executed (xs @ ys) = executed xs @ executed ys"
  by (induction xs rule: executed.induct) simp_all

lemma unblock_each_effects:
  "\<exists>gate. effects (snd (unblock_each bs st s)) = effects s @ gate \<and> list_all is_executed gate"
proof (induction bs st s rule: unblock_each.induct)
  case (1 st s)
  then show ?case by simp
next
  case (2 n cat rest st s)
  show ?case
  proof (cases "consented st cat \<and> script_type (heap s n) = ''text/plain''")
    case False
    with 2 show ?thesis by auto
  next
    case True
    show ?thesis
    proof (cases "parentNode (heap s n)")
      case False
      with True have "effects (snd (unblock_each ((n, cat) # rest) st s)) = effects s @ []"
        by (simp add: Let_def)
      then show ?thesis
        by (intro exI [of _ "[]"]) simp
    next
      case attached: True
      let ?new = "next_node s"
      let ?newScript = "\<lparr>attributes = copy_attributes (attributes (heap s n)),
                          textContent = textContent (heap s n), parentNode = False\<rparr>"
      let ?s1 = "s\<lparr>heap := (heap s)(?new := ?newScript), next_node := Suc ?new\<rparr>"
      let ?s2 = "emit (ScriptExecuted n ?new cat)
                      (?s1\<lparr>heap := (heap ?s1)(n := (heap ?s1 n)\<lparr>parentNode := False\<rparr>,
                                               ?new := ?newScript\<lparr>parentNode := True\<rparr>),
                          pending := (if observing ?s1 then pending ?s1 @ [?new] else pending ?s1)\<rparr>)"
      have "\<exists>gate. effects (snd (unblock_each rest st ?s2)) = effects ?s2 @ gate
          \<and> list_all is_executed gate"
        using True attached by (intro "2.IH"(1)) simp_all
      then obtain gate where g: "effects (snd (unblock_each rest st ?s2)) = effects ?s2 @ gate"
        and l: "list_all is_executed gate"
        by blast
      have e2: "effects ?s2 = effects s @ [ScriptExecuted n ?new cat]"
        by (simp add: emit_def)
      have u: "unblock_each ((n, cat) # rest) st s = unblock_each rest st ?s2"
        using True attached by (simp add: Let_def)
      have "effects (snd (unblock_each ((n, cat) # rest) st s))
          = effects s @ (ScriptExecuted n ?new cat # gate)"
        unfolding u g e2 by simp
      moreover have "list_all is_executed (ScriptExecuted n ?new cat # gate)"
        using l by (simp add: is_executed_def)
      ultimately show ?thesis
        by blast
    qed
  qed
qed

lemma blocked_wf_Cons:
  assumes "blocked_wf ((n, c) # rest) s"
  shows "n < next_node s" and "parentNode (heap s n)" and "script_type (heap s n) = ''text/plain''"
    and "n \<notin> fst ` set rest" and "blocked_wf rest s"
  using assms by (simp_all add: blocked_wf_def)

lemma blocked_wf_step:
  assumes "blocked_wf rest s" and "n \<notin> fst ` set rest"
    and "\<forall>m. m \<noteq> n \<and> m < next_node s \<longrightarrow> heap s' m = heap s m"
    and "next_node s \<le> next_node s'"
  shows "blocked_wf rest s'"
  unfolding blocked_wf_def
proof (intro conjI ballI)
  show "distinct (map fst rest)"
    using assms(1) by (simp add: blocked_wf_def)
next
  fix x
  assume x: "x \<in> set rest"
  obtain m c where mc: "x = (m, c)"
    by (cases x)
  from x mc assms(1) have w: "m < next_node s" "parentNode (heap s m)"
    "script_type (heap s m) = ''text/plain''"
    by (auto simp: blocked_wf_def)
  from x mc assms(2) have "m \<noteq> n"
    by force
  with w(1) assms(3) have "heap s' m = heap s m"
    by simp
  with w assms(4) mc
  show "case x of (n, c) \<Rightarrow> n < next_node s' \<and> parentNode (heap s' n)
      \<and> script_type (heap s' n) = ''text/plain''"
    by simp
qed

lemma unblock_each_wf:
  "blocked_wf bs s \<Longrightarrow>
   fst (unblock_each bs st s) = None
   \<and> executed (effects (snd (unblock_each bs st s)))
       = executed (effects s) @ filter (\<lambda>(n, c). consented st c) bs"
proof (induction bs arbitrary: s)
  case Nil
  then show ?case by simp
next
  case (Cons b rest)
  obtain n cat where b: "b = (n, cat)"
    by (cases b)
  note w = blocked_wf_Cons [OF Cons.prems [unfolded b]]
  show ?case
  proof (cases "consented st cat")
    case False
    then have "unblock_each (b # rest) st s = unblock_each rest st s"
      by (simp add: b)
    with Cons.IH [OF w(5)] False show ?thesis
      by (simp add: b)
  next
    case True
    let ?new = "next_node s"
    let ?newScript = "\<lparr>attributes = copy_attributes (attributes (heap s n)),
                        textContent = textContent (heap s n), parentNode = False\<rparr>"
    let ?s1 = "s\<lparr>heap := (heap s)(?new := ?newScript), next_node := Suc ?new\<rparr>"
    let ?s2 = "emit (ScriptExecuted n ?new cat)
                    (?s1\<lparr>heap := (heap ?s1)(n := (heap ?s1 n)\<lparr>parentNode := False\<rparr>,
                                             ?new := ?newScript\<lparr>parentNode := True\<rparr>),
                        pending := (if observing ?s1 then pending ?s1 @ [?new] else pending ?s1)\<rparr>)"
    have u: "unblock_each (b # rest) st s = unblock_each rest st ?s2"
      using True w(2,3) by (simp add: b Let_def)
    have "blocked_wf rest ?s2"
      using w(5) w(4) by (rule blocked_wf_step) (simp_all add: emit_def)
    from Cons.IH [OF this]
    have ih: "fst (unblock_each rest st ?s2) = None"
      "executed (effects (snd (unblock_each rest st ?s2)))
         = executed (effects ?s2) @ filter (\<lambda>(n, c). consented st c) rest"
      by simp_all
    have e2: "executed (effects ?s2) = executed (effects s) @ [(n, cat)]"
      by (simp add: emit_def executed_append)
    have r1: "fst (unblock_each (b # rest) st s) = None"
      unfolding u by (rule ih(1))
    have "executed (effects (snd (unblock_each (b # rest) st s)))
        = (executed (effects s) @ [(n, cat)]) @ filter (\<lambda>(n, c). consented st c) rest"
      unfolding u ih(2) e2 by (rule refl)
    moreover have "filter (\<lambda>(n, c). consented st c) (b # rest)
        = (n, cat) # filter (\<lambda>(n, c). consented st c) rest"
      using True by (simp add: b)
    ultimately have r2: "executed (effects (snd (unblock_each (b # rest) st s)))
        = executed (effects s) @ filter (\<lambda>(n, c). consented st c) (b # rest)"
      by simp
    from r1 r2 show ?thesis
      by (rule conjI)
  qed
qed

lemma getSessionId_fst:
  "sessionStorage s' = sessionStorage s \<Longrightarrow> fst (getSessionId rnd s') = fst (getSessionId rnd s)"
  by (simp add: getSessionId_def split: option.splits)

lemma getSessionId_config:
  "config (snd (getSessionId rnd s)) = config s" "siteId (snd (getSessionId rnd s)) = siteId s"
  by (simp_all add: getSessionId_def split: option.splits)

lemma log_effect_cong:
  "config s' = config s \<Longrightarrow> siteId s' = siteId s \<Longrightarrow> log_effect sid d s' = log_effect sid d s"
  by (simp add: log_effect_def split: option.splits)

lemma before_apply_effects:
  "effects (before_apply rnd now d s) =
     effects s
     @ [if storage_ok s
        then Persisted \<lparr>cr_state = d, cr_timestamp = now, cr_version = version\<rparr>
        else PersistFailed]
     @ [log_effect (fst (getSessionId rnd s)) d s]"
proof (cases "storage_ok s")
  case True
  let ?c = "\<lparr>cr_state = d, cr_timestamp = now, cr_version = version\<rparr>"
  let ?p = "emit (Persisted ?c) (s\<lparr>consent := Some ?c, localStorage := Some ?c\<rparr>)"
  have b: "before_apply rnd now d s = logConsent rnd d ?p"
    using True by (simp add: before_apply_def)
  have f: "fst (getSessionId rnd ?p) = fst (getSessionId rnd s)"
    by (rule getSessionId_fst) (simp add: emit_def)
  have l: "log_effect (fst (getSessionId rnd s)) d (snd (getSessionId rnd ?p))
      = log_effect (fst (getSessionId rnd s)) d s"
    by (rule log_effect_cong) (simp_all add: getSessionId_config emit_def)
  show ?thesis
    unfolding b logConsent_frame f l using True by (simp add: emit_def)
next
  case False
  let ?c = "\<lparr>cr_state = d, cr_timestamp = now, cr_version = version\<rparr>"
  let ?p = "emit PersistFailed (s\<lparr>consent := Some ?c\<rparr>)"
  have b: "before_apply rnd now d s = logConsent rnd d ?p"
    using False by (simp add: before_apply_def)
  have f: "fst (getSessionId rnd ?p) = fst (getSessionId rnd s)"
    by (rule getSessionId_fst) (simp add: emit_def)
  have l: "log_effect (fst (getSessionId rnd s)) d (snd (getSessionId rnd ?p))
      = log_effect (fst (getSessionId rnd s)) d s"
    by (rule log_effect_cong) (simp_all add: getSessionId_config emit_def)
  show ?thesis
    unfolding b logConsent_frame f l using False by (simp add: emit_def)
qed

lemma blocked_wf_before_apply:
  "blocked_wf bs s \<Longrightarrow> blocked_wf bs (before_apply rnd now d s)"
  by (simp add: blocked_wf_def before_apply_frame)

lemma saveConsent_effects:
  "\<exists>gate.
     effects (snd (saveConsent rnd now d s)) =
       effects s
       @ [if storage_ok s
          then Persisted \<lparr>cr_state = d, cr_timestamp = now, cr_version = version\<rparr>
          else PersistFailed]
       @ [log_effect (fst (getSessionId rnd s)) d s]
       @ gate
       @ (if fst (saveConsent rnd now d s) = None then [Dispatched ''cmp:consent-changed'' d]
          else [])
     \<and> list_all is_executed gate
     \<and> (blocked_wf (blockedScripts s) s \<longrightarrow>
          fst (saveConsent rnd now d s) = None
          \<and> executed gate = filter (\<lambda>(n, c). consented d c) (blockedScripts s))
     \<and> consent (snd (saveConsent rnd now d s)) =
          Some \<lparr>cr_state = d, cr_timestamp = now, cr_version = version\<rparr>
     \<and> localStorage (snd (saveConsent rnd now d s)) =
          (if storage_ok s then Some \<lparr>cr_state = d, cr_timestamp = now, cr_version = version\<rparr>
           else localStorage s)"
proof -
  let ?b = "before_apply rnd now d s"
  let ?c = "\<lparr>cr_state = d, cr_timestamp = now, cr_version = version\<rparr>"
  let ?u = "unblock_each (blockedScripts s) d ?b"
  have c: "consent ?b = Some ?c"
    by (simp add: before_apply_frame)
  have bs: "blockedScripts ?b = blockedScripts s"
    by (simp add: before_apply_frame)
  obtain gate where g: "effects (snd ?u) = effects ?b @ gate" and l: "list_all is_executed gate"
    using unblock_each_effects [of "blockedScripts s" d ?b] by blast
  have fr: "fresh_only ?b (snd ?u)"
    by (rule unblock_each_fresh)
  have ls: "localStorage (snd (unblock_each bs st s0)) = localStorage s0" for bs st s0
    by (induction bs st s0 rule: unblock_each.induct) (auto simp: Let_def emit_def)
  have sv: "saveConsent rnd now d s =
      (case ?u of (None, s') \<Rightarrow> (None, emit (Dispatched ''cmp:consent-changed'' d)
                                          (s'\<lparr>blockedScripts := []\<rparr>))
               | (Some e, s') \<Rightarrow> (Some e, s'))"
    by (simp add: saveConsent_apply applyConsent_unblock [OF c] bs split: prod.splits option.splits)
  have fst_sv: "fst (saveConsent rnd now d s) = fst ?u"
    unfolding sv by (simp split: prod.splits option.splits)
  have eff: "effects (snd (saveConsent rnd now d s)) =
      effects (snd ?u) @ (if fst ?u = None then [Dispatched ''cmp:consent-changed'' d] else [])"
    unfolding sv by (simp add: emit_def split: prod.splits option.splits)
  have con: "consent (snd (saveConsent rnd now d s)) = consent (snd ?u)"
    unfolding sv by (simp add: emit_def split: prod.splits option.splits)
  have loc: "localStorage (snd (saveConsent rnd now d s)) = localStorage (snd ?u)"
    unfolding sv by (simp add: emit_def split: prod.splits option.splits)
  have wf: "fst ?u = None \<and> executed gate = filter (\<lambda>(n, c). consented d c) (blockedScripts s)"
    if "blocked_wf (blockedScripts s) s"
  proof -
    from that have "blocked_wf (blockedScripts s) ?b"
      by (rule blocked_wf_before_apply)
    from unblock_each_wf [OF this, of d] g show ?thesis
      by (simp add: executed_append)
  qed
  have 1: "effects (snd (saveConsent rnd now d s)) =
       effects s
       @ [if storage_ok s then Persisted ?c else PersistFailed]
       @ [log_effect (fst (getSessionId rnd s)) d s]
       @ gate
       @ (if fst (saveConsent rnd now d s) = None then [Dispatched ''cmp:consent-changed'' d]
          else [])"
    unfolding eff g fst_sv before_apply_effects by simp
  have 3: "blocked_wf (blockedScripts s) s \<longrightarrow>
          fst (saveConsent rnd now d s) = None
          \<and> executed gate = filter (\<lambda>(n, c). consented d c) (blockedScripts s)"
    using wf by (simp add: fst_sv)
  have 4: "consent (snd (saveConsent rnd now d s)) = Some ?c"
    using fr by (simp add: con fresh_only_def c)
  have 5: "localStorage (snd (saveConsent rnd now d s)) =
          (if storage_ok s then Some ?c else localStorage s)"
    by (simp add: loc ls before_apply_frame)
  from 1 l 3 4 5 show ?thesis
    by blast
qed

section \<open>The order of a consent change\<close>

text \<open>
  Claim C5, as the code has it.  \<open>saveConsent\<close> assigns the new consent object and then
  adds, in this order: the attempt to store it, which is \<open>Persisted\<close> or \<open>PersistFailed\<close>
  and in both cases lets the call go on; the attempt to log it, which is a request with
  the decision and the session identifier when a configuration is loaded and \<open>LogFailed\<close>
  otherwise; the replacements of one pass over the blocked list; and, if the call
  returns normally, one change event, last.  On a blocked list of distinct placeholders
  that are in the document the call returns normally and the pass replaces the
  consented entries in list order.  Otherwise the pass may raise a \<open>TypeError\<close>, and then
  the call ends without the event.  The consent state is the new decision in every case;
  the stored item is the new decision if it could be stored and is left as it was if not.
\<close>

theorem saveConsent_order:
  "(\<exists>gate.
     effects (snd (saveConsent rnd now d s)) =
       effects s
       @ [if storage_ok s
          then Persisted \<lparr>cr_state = d, cr_timestamp = now, cr_version = version\<rparr>
          else PersistFailed]
       @ [log_effect (fst (getSessionId rnd s)) d s]
       @ gate
       @ (if fst (saveConsent rnd now d s) = None then [Dispatched ''cmp:consent-changed'' d]
          else [])
     \<and> list_all is_executed gate
     \<and> (blocked_wf (blockedScripts s) s \<longrightarrow>
          fst (saveConsent rnd now d s) = None
          \<and> executed gate = filter (\<lambda>(n, c). consented d c) (blockedScripts s))
     \<and> consent (snd (saveConsent rnd now d s)) =
          Some \<lparr>cr_state = d, cr_timestamp = now, cr_version = version\<rparr>
     \<and> localStorage (snd (saveConsent rnd now d s)) =
          (if storage_ok s then Some \<lparr>cr_state = d, cr_timestamp = now, cr_version = version\<rparr>
           else localStorage s))
   \<and> (config s = None \<longrightarrow> log_effect (fst (getSessionId rnd s)) d s = LogFailed)
   \<and> (config s \<noteq> None \<longrightarrow>
        (\<exists>r. log_effect (fst (getSessionId rnd s)) d s = LogRequest r
           \<and> lr_consentState r = d \<and> lr_sessionId r = fst (getSessionId rnd s)))"
proof (intro conjI)
  show "config s = None \<longrightarrow> log_effect (fst (getSessionId rnd s)) d s = LogFailed"
    by (simp add: log_effect_def)
  show "config s \<noteq> None \<longrightarrow>
        (\<exists>r. log_effect (fst (getSessionId rnd s)) d s = LogRequest r
           \<and> lr_consentState r = d \<and> lr_sessionId r = fst (getSessionId rnd s))"
    by (cases "config s") (simp_all add: log_effect_def)
qed (rule saveConsent_effects)

lemma fresh_page_facts:
  "pending fresh_page = []" "observing fresh_page" "next_node fresh_page = 0"
  "consent fresh_page = None" "blockedScripts fresh_page = []" "effects fresh_page = []"
  "localStorage fresh_page = None" "storage_ok fresh_page"
  "sessionStorage fresh_page = Some ''0f8fad5b-d9cb-469f-a165-70867728950e''"
  "siteId fresh_page = ''default''"
  "config fresh_page = Some \<lparr>blocking_enabled = True, cfg_policyVersion = None\<rparr>"
  by (simp_all add: fresh_page_def)

lemma blocked_page_facts:
  "pending blocked_page = []" "observing blocked_page" "next_node blocked_page = 1"
  "consent blocked_page = None" "blockedScripts blocked_page = [(0, ''analytics'')]"
  "effects blocked_page = [ScriptBlocked 0 ''analytics'']"
  "heap blocked_page 0 =
     \<lparr>attributes = [(''src'', ''analytics.js''), (''data-category'', ''analytics''),
                    (''type'', ''text/plain''), (''data-blocked'', ''true'')],
      textContent = ''track()'', parentNode = True\<rparr>"
proof -
  let ?nd = "\<lparr>attributes = analytics_script, textContent = ''track()'', parentNode = True\<rparr>"
  let ?s1 = "fresh_page\<lparr>heap := (heap fresh_page)(0 := ?nd), next_node := Suc 0, pending := [0]\<rparr>"
  have d: "blocked_page = (handleScript 0 ?s1)\<lparr>pending := []\<rparr>"
    unfolding blocked_page_def
    using discover_new [OF fresh_page_facts(1,2), of analytics_script "''track()''"]
    by (simp add: fresh_page_facts)
  have hc: "\<not> has_consent ?s1 ''analytics''"
    by (simp add: has_consent_def fresh_page_facts)
  have h: "handleScript 0 ?s1 =
      emit (ScriptBlocked 0 ''analytics'')
        ((update_node 0 (setAttribute ''data-blocked'' ''true'' \<circ> setAttribute ''type'' ''text/plain'') ?s1)
           \<lparr>blockedScripts := blockedScripts ?s1 @ [(0, ''analytics'')]\<rparr>)"
    by (simp add: handleScript_def getAttribute_def script_type_def analytics_script_attrs hc)
  show "pending blocked_page = []" "observing blocked_page" "next_node blocked_page = 1"
    "consent blocked_page = None" "blockedScripts blocked_page = [(0, ''analytics'')]"
    "effects blocked_page = [ScriptBlocked 0 ''analytics'']"
    "heap blocked_page 0 =
     \<lparr>attributes = [(''src'', ''analytics.js''), (''data-category'', ''analytics''),
                    (''type'', ''text/plain''), (''data-blocked'', ''true'')],
      textContent = ''track()'', parentNode = True\<rparr>"
    unfolding d h
    by (simp_all add: emit_def update_node_def setAttribute_def fresh_page_facts
        analytics_script_def)
qed

lemma blocked_page_wf: "blocked_wf (blockedScripts blocked_page) blocked_page"
  by (simp add: blocked_wf_def blocked_page_facts script_type_def getAttribute_def)

theorem saveConsent_order_witness:
  "fst (saveConsent no_random 2 also_analytics blocked_page) = None
   \<and> (\<exists>gate.
        effects (snd (saveConsent no_random 2 also_analytics blocked_page)) =
          effects blocked_page
          @ [Persisted \<lparr>cr_state = also_analytics, cr_timestamp = 2, cr_version = version\<rparr>]
          @ [log_effect (fst (getSessionId no_random blocked_page)) also_analytics blocked_page]
          @ gate
          @ [Dispatched ''cmp:consent-changed'' also_analytics]
        \<and> executed gate = [(0, ''analytics'')])
   \<and> (\<exists>r. log_effect (fst (getSessionId no_random blocked_page)) also_analytics blocked_page
              = LogRequest r
          \<and> lr_consentState r = also_analytics
          \<and> lr_sessionId r = fst (getSessionId no_random blocked_page))"
proof -
  have ok: "storage_ok blocked_page" and cf: "config blocked_page \<noteq> None"
    by (simp_all add: blocked_page_def discover_def deliver_def insert_script_def
        fresh_page_facts fold_handleScript_frame handleScript_def emit_def update_node_def
        split: option.splits)
  have lg: "\<exists>r. log_effect (fst (getSessionId no_random blocked_page)) also_analytics blocked_page
              = LogRequest r
          \<and> lr_consentState r = also_analytics
          \<and> lr_sessionId r = fst (getSessionId no_random blocked_page)"
    using saveConsent_order [of no_random 2 also_analytics blocked_page,
        THEN conjunct2, THEN conjunct2, THEN mp, OF cf] .
  from saveConsent_order [of no_random 2 also_analytics blocked_page, THEN conjunct1]
  obtain gate where
    e: "effects (snd (saveConsent no_random 2 also_analytics blocked_page)) =
       effects blocked_page
       @ [if storage_ok blocked_page
          then Persisted \<lparr>cr_state = also_analytics, cr_timestamp = 2, cr_version = version\<rparr>
          else PersistFailed]
       @ [log_effect (fst (getSessionId no_random blocked_page)) also_analytics blocked_page]
       @ gate
       @ (if fst (saveConsent no_random 2 also_analytics blocked_page) = None
          then [Dispatched ''cmp:consent-changed'' also_analytics] else [])"
    and w: "blocked_wf (blockedScripts blocked_page) blocked_page \<longrightarrow>
          fst (saveConsent no_random 2 also_analytics blocked_page) = None
          \<and> executed gate = filter (\<lambda>(n, c). consented also_analytics c)
              (blockedScripts blocked_page)"
    by blast
  from w blocked_page_wf have n: "fst (saveConsent no_random 2 also_analytics blocked_page) = None"
    and x: "executed gate = filter (\<lambda>(n, c). consented also_analytics c)
              (blockedScripts blocked_page)"
    by simp_all
  from x have x': "executed gate = [(0, ''analytics'')]"
    by (simp add: blocked_page_facts consented_examples)
  from e n ok have "effects (snd (saveConsent no_random 2 also_analytics blocked_page)) =
          effects blocked_page
          @ [Persisted \<lparr>cr_state = also_analytics, cr_timestamp = 2, cr_version = version\<rparr>]
          @ [log_effect (fst (getSessionId no_random blocked_page)) also_analytics blocked_page]
          @ gate
          @ [Dispatched ''cmp:consent-changed'' also_analytics]"
    by simp
  with x' have "\<exists>gate.
        effects (snd (saveConsent no_random 2 also_analytics blocked_page)) =
          effects blocked_page
          @ [Persisted \<lparr>cr_state = also_analytics, cr_timestamp = 2, cr_version = version\<rparr>]
          @ [log_effect (fst (getSessionId no_random blocked_page)) also_analytics blocked_page]
          @ gate
          @ [Dispatched ''cmp:consent-changed'' also_analytics]
        \<and> executed gate = [(0, ''analytics'')]"
    by blast
  with n lg show ?thesis
    by (intro conjI)
qed

lemma only_executed_none:
  "list_all is_executed gate \<Longrightarrow> executed gate = [] \<Longrightarrow> gate = []"
proof (cases gate)
  case Nil
  then show ?thesis by simp
next
  case (Cons e es)
  assume "list_all is_executed gate" and x: "executed gate = []"
  with Cons have "is_executed e"
    by simp
  then obtain n m c where "e = ScriptExecuted n m c"
    by (cases e) (simp_all add: is_executed_def)
  with Cons x show ?thesis
    by simp
qed

lemma no_storage_page_facts:
  "\<not> storage_ok no_storage_page" "blockedScripts no_storage_page = []"
  "effects no_storage_page = []" "localStorage no_storage_page = None"
  "log_effect (fst (getSessionId rnd no_storage_page)) d no_storage_page =
     LogRequest \<lparr>lr_siteId = ''default'', lr_sessionId = ''0f8fad5b-d9cb-469f-a165-70867728950e'',
       lr_consentState = d, lr_widgetVersion = ''1.0.0'', lr_policyVersion = ''1.0.0''\<rparr>"
  by (simp_all add: no_storage_page_def fresh_page_def log_effect_def getSessionId_def
      version_def)

text \<open>
  In a browser that refuses to store the item, \<open>saveConsent\<close> returns normally, the
  consent state has changed, nothing is stored, and the change event is dispatched.
\<close>

theorem saveConsent_persist_failure_counterexample:
  "fst (saveConsent no_random 1 only_preferences no_storage_page) = None
   \<and> consent (snd (saveConsent no_random 1 only_preferences no_storage_page)) =
       Some \<lparr>cr_state = only_preferences, cr_timestamp = 1, cr_version = version\<rparr>
   \<and> localStorage (snd (saveConsent no_random 1 only_preferences no_storage_page)) = None
   \<and> effects (snd (saveConsent no_random 1 only_preferences no_storage_page)) =
       [PersistFailed,
        LogRequest \<lparr>lr_siteId = ''default'',
          lr_sessionId = ''0f8fad5b-d9cb-469f-a165-70867728950e'',
          lr_consentState = only_preferences, lr_widgetVersion = ''1.0.0'',
          lr_policyVersion = ''1.0.0''\<rparr>,
        Dispatched ''cmp:consent-changed'' only_preferences]"
proof -
  let ?r = "saveConsent no_random 1 only_preferences no_storage_page"
  have wf: "blocked_wf (blockedScripts no_storage_page) no_storage_page"
    by (simp add: blocked_wf_def no_storage_page_facts)
  from saveConsent_effects [of no_random 1 only_preferences no_storage_page]
  obtain gate where
    e: "effects (snd ?r) =
       effects no_storage_page
       @ [if storage_ok no_storage_page
          then Persisted \<lparr>cr_state = only_preferences, cr_timestamp = 1, cr_version = version\<rparr>
          else PersistFailed]
       @ [log_effect (fst (getSessionId no_random no_storage_page)) only_preferences
            no_storage_page]
       @ gate
       @ (if fst ?r = None then [Dispatched ''cmp:consent-changed'' only_preferences] else [])"
    and l: "list_all is_executed gate"
    and w: "blocked_wf (blockedScripts no_storage_page) no_storage_page \<longrightarrow>
          fst ?r = None
          \<and> executed gate = filter (\<lambda>(n, c). consented only_preferences c)
              (blockedScripts no_storage_page)"
    and c: "consent (snd ?r) =
          Some \<lparr>cr_state = only_preferences, cr_timestamp = 1, cr_version = version\<rparr>"
    and s: "localStorage (snd ?r) =
          (if storage_ok no_storage_page
           then Some \<lparr>cr_state = only_preferences, cr_timestamp = 1, cr_version = version\<rparr>
           else localStorage no_storage_page)"
    by blast
  from w wf have n: "fst ?r = None" and x: "executed gate = []"
    by (simp_all add: no_storage_page_facts)
  from l x have g: "gate = []"
    by (rule only_executed_none)
  have e': "effects (snd ?r) =
       [PersistFailed,
        LogRequest \<lparr>lr_siteId = ''default'',
          lr_sessionId = ''0f8fad5b-d9cb-469f-a165-70867728950e'',
          lr_consentState = only_preferences, lr_widgetVersion = ''1.0.0'',
          lr_policyVersion = ''1.0.0''\<rparr>,
        Dispatched ''cmp:consent-changed'' only_preferences]"
    unfolding e g using n by (simp add: no_storage_page_facts)
  have s': "localStorage (snd ?r) = None"
    unfolding s by (simp add: no_storage_page_facts)
  from n c s' e' show ?thesis
    by (intro conjI)
qed

text \<open>
  When the page has taken the blocked placeholder out of the document, a decision that
  grants its category makes the pass raise a \<open>TypeError\<close>: the call ends with it, after
  the store and log attempts and without the change event; the consent state is the new
  decision all the same.
\<close>

lemma detached_page_facts:
  "blockedScripts detached_page = [(0, ''analytics'')]" "\<not> parentNode (heap detached_page 0)"
  "script_type (heap detached_page 0) = ''text/plain''" "storage_ok detached_page"
  "effects detached_page = [ScriptBlocked 0 ''analytics'']"
  "log_effect (fst (getSessionId rnd detached_page)) d detached_page =
     LogRequest \<lparr>lr_siteId = ''default'', lr_sessionId = ''0f8fad5b-d9cb-469f-a165-70867728950e'',
       lr_consentState = d, lr_widgetVersion = ''1.0.0'', lr_policyVersion = ''1.0.0''\<rparr>"
proof -
  have st: "storage_ok blocked_page" "config blocked_page = config fresh_page"
    "siteId blocked_page = siteId fresh_page"
    "sessionStorage blocked_page = sessionStorage fresh_page"
    by (simp_all add: blocked_page_def discover_def deliver_def insert_script_def
        fresh_page_facts fold_handleScript_frame handleScript_def emit_def update_node_def
        split: option.splits)
  show "blockedScripts detached_page = [(0, ''analytics'')]"
    "\<not> parentNode (heap detached_page 0)"
    "script_type (heap detached_page 0) = ''text/plain''" "storage_ok detached_page"
    "effects detached_page = [ScriptBlocked 0 ''analytics'']"
    by (simp_all add: detached_page_def update_node_def blocked_page_facts st script_type_def
        getAttribute_def)
  have cf: "config detached_page = config fresh_page" "siteId detached_page = siteId fresh_page"
    "sessionStorage detached_page = sessionStorage fresh_page"
    by (simp_all add: detached_page_def update_node_def st)
  have "log_effect (fst (getSessionId rnd detached_page)) d detached_page =
      log_effect (fst (getSessionId rnd fresh_page)) d fresh_page"
    using getSessionId_fst [OF cf(3), of rnd] log_effect_cong [OF cf(1,2)] by simp
  then show "log_effect (fst (getSessionId rnd detached_page)) d detached_page =
     LogRequest \<lparr>lr_siteId = ''default'', lr_sessionId = ''0f8fad5b-d9cb-469f-a165-70867728950e'',
       lr_consentState = d, lr_widgetVersion = ''1.0.0'', lr_policyVersion = ''1.0.0''\<rparr>"
    by (simp add: log_effect_def getSessionId_def fresh_page_facts version_def)
qed

lemma saveConsent_detached_placeholder:
  "fst (saveConsent no_random 2 also_analytics detached_page) = Some TypeError"
  "effects (snd (saveConsent no_random 2 also_analytics detached_page)) =
     [ScriptBlocked 0 ''analytics'',
      Persisted \<lparr>cr_state = also_analytics, cr_timestamp = 2, cr_version = version\<rparr>,
      LogRequest \<lparr>lr_siteId = ''default'',
        lr_sessionId = ''0f8fad5b-d9cb-469f-a165-70867728950e'',
        lr_consentState = also_analytics, lr_widgetVersion = ''1.0.0'',
        lr_policyVersion = ''1.0.0''\<rparr>]"
  "consent (snd (saveConsent no_random 2 also_analytics detached_page)) =
     Some \<lparr>cr_state = also_analytics, cr_timestamp = 2, cr_version = version\<rparr>"
proof -
  let ?b = "before_apply no_random 2 also_analytics detached_page"
  let ?c = "\<lparr>cr_state = also_analytics, cr_timestamp = 2, cr_version = version\<rparr>"
  have c: "consent ?b = Some ?c"
    by (simp add: before_apply_frame)
  have fu: "fst (unblock_each (blockedScripts ?b) also_analytics ?b) = Some TypeError"
    and eu: "effects (snd (unblock_each (blockedScripts ?b) also_analytics ?b)) = effects ?b"
    and cu: "consent (snd (unblock_each (blockedScripts ?b) also_analytics ?b)) = consent ?b"
    by (simp_all add: before_apply_frame detached_page_facts consented_examples Let_def)
  obtain e s' where u: "unblock_each (blockedScripts ?b) also_analytics ?b = (e, s')"
    by (cases "unblock_each (blockedScripts ?b) also_analytics ?b")
  from fu eu cu u have e: "e = Some TypeError" and s': "effects s' = effects ?b"
    "consent s' = consent ?b"
    by simp_all
  have sv: "saveConsent no_random 2 also_analytics detached_page = (Some TypeError, s')"
    by (simp add: saveConsent_apply applyConsent_unblock [OF c] u e)
  show "fst (saveConsent no_random 2 also_analytics detached_page) = Some TypeError"
    by (simp add: sv)
  show "effects (snd (saveConsent no_random 2 also_analytics detached_page)) =
     [ScriptBlocked 0 ''analytics'', Persisted ?c,
      LogRequest \<lparr>lr_siteId = ''default'',
        lr_sessionId = ''0f8fad5b-d9cb-469f-a165-70867728950e'',
        lr_consentState = also_analytics, lr_widgetVersion = ''1.0.0'',
        lr_policyVersion = ''1.0.0''\<rparr>]"
    by (simp add: sv s' before_apply_effects detached_page_facts)
  show "consent (snd (saveConsent no_random 2 also_analytics detached_page)) = Some ?c"
    by (simp add: sv s' c)
qed

section \<open>The decision that is stored\<close>

text \<open>
  Claim C6, as the code has it.  \<open>updateConsent\<close> keeps the decision as it was given,
  in the consent state and, when the item can be stored, in \<open>localStorage\<close>.  With a
  blocked list of distinct placeholders in the document the call returns normally
  whatever the decision holds.
\<close>

theorem updateConsent_keeps_decision:
  "consent (snd (updateConsent rnd now d s)) =
      Some \<lparr>cr_state = d, cr_timestamp = now, cr_version = version\<rparr>
   \<and> getConsent (snd (updateConsent rnd now d s)) = Some d
   \<and> localStorage (snd (updateConsent rnd now d s)) =
       (if storage_ok s then Some \<lparr>cr_state = d, cr_timestamp = now, cr_version = version\<rparr>
        else localStorage s)
   \<and> (blocked_wf (blockedScripts s) s \<longrightarrow> fst (updateConsent rnd now d s) = None)"
proof -
  from saveConsent_effects [of rnd now d s]
  have c: "consent (snd (saveConsent rnd now d s)) =
          Some \<lparr>cr_state = d, cr_timestamp = now, cr_version = version\<rparr>"
    and l: "localStorage (snd (saveConsent rnd now d s)) =
          (if storage_ok s then Some \<lparr>cr_state = d, cr_timestamp = now, cr_version = version\<rparr>
           else localStorage s)"
    and w: "blocked_wf (blockedScripts s) s \<longrightarrow> fst (saveConsent rnd now d s) = None"
    by blast+
  from c have g: "getConsent (snd (saveConsent rnd now d s)) = Some d"
    by (simp add: getConsent_def)
  from c g l w show ?thesis
    unfolding updateConsent_def by (intro conjI)
qed

theorem updateConsent_keeps_decision_witness:
  "fst (updateConsent no_random 2 necessary_off blocked_page) = None
   \<and> getConsent (snd (updateConsent no_random 2 necessary_off blocked_page)) = Some necessary_off"
proof -
  note T = updateConsent_keeps_decision [of no_random 2 necessary_off blocked_page]
  from T blocked_page_wf have "fst (updateConsent no_random 2 necessary_off blocked_page) = None"
    by blast
  moreover from T
  have "getConsent (snd (updateConsent no_random 2 necessary_off blocked_page)) = Some necessary_off"
    by blast
  ultimately show ?thesis
    by (rule conjI)
qed

text \<open>
  A decision with \<open>necessary\<close> turned off is accepted, and \<open>necessary\<close> is false in the
  consent state and in the stored item.
\<close>

theorem necessary_not_coerced_counterexample:
  "fst (updateConsent no_random 1 necessary_off fresh_page) = None
   \<and> map_option (\<lambda>c. cr_state c ''necessary'')
        (consent (snd (updateConsent no_random 1 necessary_off fresh_page))) = Some (Some False)
   \<and> map_option (\<lambda>c. cr_state c ''necessary'')
        (localStorage (snd (updateConsent no_random 1 necessary_off fresh_page)))
       = Some (Some False)"
proof -
  let ?r = "saveConsent no_random 1 necessary_off fresh_page"
  have wf: "blocked_wf (blockedScripts fresh_page) fresh_page"
    by (simp add: blocked_wf_def fresh_page_facts)
  from saveConsent_effects [of no_random 1 necessary_off fresh_page]
  have c: "consent (snd ?r) =
          Some \<lparr>cr_state = necessary_off, cr_timestamp = 1, cr_version = version\<rparr>"
    and l: "localStorage (snd ?r) =
          (if storage_ok fresh_page
           then Some \<lparr>cr_state = necessary_off, cr_timestamp = 1, cr_version = version\<rparr>
           else localStorage fresh_page)"
    and w: "blocked_wf (blockedScripts fresh_page) fresh_page \<longrightarrow> fst ?r = None"
    by blast+
  from w wf have n: "fst ?r = None"
    by simp
  have off: "necessary_off ''necessary'' = Some False"
    by (simp add: necessary_off_def)
  from n c l off show ?thesis
    unfolding updateConsent_def by (simp add: fresh_page_facts)
qed

text \<open>The gate does not look at the decision for an element marked \<open>necessary\<close>.\<close>

lemma handleScript_necessary:
  "getAttribute (heap s n) ''data-category'' = Some ''necessary'' \<Longrightarrow> handleScript n s = s"
  by (simp add: handleScript_def)

lemma acceptAll_rejectAll_necessary:
  "map_option (\<lambda>st. st ''necessary'') (getConsent (snd (acceptAll rnd now s))) = Some (Some True)"
  "map_option (\<lambda>st. st ''necessary'') (getConsent (snd (rejectAll rnd now s))) = Some (Some True)"
proof -
  have "getConsent (snd (saveConsent rnd now d s)) = Some d" for d
    using saveConsent_effects [of rnd now d s] by (auto simp: getConsent_def)
  then show
    "map_option (\<lambda>st. st ''necessary'') (getConsent (snd (acceptAll rnd now s))) = Some (Some True)"
    "map_option (\<lambda>st. st ''necessary'') (getConsent (snd (rejectAll rnd now s))) = Some (Some True)"
    by (simp_all add: acceptAll_def rejectAll_def)
qed

section \<open>A grant on a later consent change\<close>

lemma unblock_each_none:
  "\<forall>(n, c) \<in> set bs. \<not> consented st c \<Longrightarrow> unblock_each bs st s = (None, s)"
  by (induction bs) auto

text \<open>
  A consent change that grants none of the categories on the blocked list leaves every
  element as it is and still empties the list.
\<close>

lemma consent_change_forgets:
  assumes "pending s = []" and "\<forall>(n, c) \<in> set (blockedScripts s). \<not> consented d c"
  shows "heap (consent_change rnd now d s) = heap s"
    and "next_node (consent_change rnd now d s) = next_node s"
    and "blockedScripts (consent_change rnd now d s) = []"
    and "pending (consent_change rnd now d s) = []"
proof -
  let ?b = "before_apply rnd now d s"
  let ?c = "\<lparr>cr_state = d, cr_timestamp = now, cr_version = version\<rparr>"
  have c: "consent ?b = Some ?c"
    by (simp add: before_apply_frame)
  have u: "unblock_each (blockedScripts ?b) d ?b = (None, ?b)"
    using assms(2) by (intro unblock_each_none) (simp add: before_apply_frame)
  have sv: "snd (saveConsent rnd now d s) =
      emit (Dispatched ''cmp:consent-changed'' d) (?b\<lparr>blockedScripts := []\<rparr>)"
    by (simp add: saveConsent_apply applyConsent_unblock [OF c] u)
  have cc: "consent_change rnd now d s =
      (emit (Dispatched ''cmp:consent-changed'' d) (?b\<lparr>blockedScripts := []\<rparr>))\<lparr>pending := []\<rparr>"
    using assms(1)
    by (simp add: consent_change_def updateConsent_def sv deliver_def emit_def before_apply_frame)
  show "heap (consent_change rnd now d s) = heap s"
    "next_node (consent_change rnd now d s) = next_node s"
    "blockedScripts (consent_change rnd now d s) = []"
    "pending (consent_change rnd now d s) = []"
    by (simp_all add: cc emit_def before_apply_frame)
qed

text \<open>
  Claim C1 on the example page.  An analytics script is blocked; the visitor first saves
  a decision that grants preferences only, then one that grants analytics.  After the
  second change analytics is consented, yet the script is still the blocked placeholder
  in the document, no replacement has been made, and the blocked list is empty.
\<close>

theorem second_grant_leaves_blocked:
  "gate_of (heap blocked_page 0) = Blocked
   \<and> blockedScripts blocked_page = [(0, ''analytics'')]
   \<and> has_consent
        (consent_changes no_random [(1, only_preferences), (2, also_analytics)] blocked_page)
        ''analytics''
   \<and> gate_of
        (heap (consent_changes no_random [(1, only_preferences), (2, also_analytics)] blocked_page)
           0) = Blocked
   \<and> parentNode
        (heap (consent_changes no_random [(1, only_preferences), (2, also_analytics)] blocked_page)
           0)
   \<and> next_node
        (consent_changes no_random [(1, only_preferences), (2, also_analytics)] blocked_page) = 1
   \<and> blockedScripts
        (consent_changes no_random [(1, only_preferences), (2, also_analytics)] blocked_page) = []"
proof -
  let ?s1 = "consent_change no_random 1 only_preferences blocked_page"
  let ?s2 = "consent_change no_random 2 also_analytics ?s1"
  have run: "consent_changes no_random [(1, only_preferences), (2, also_analytics)] blocked_page
      = ?s2"
    by simp
  have n1: "\<forall>(n, c) \<in> set (blockedScripts blocked_page). \<not> consented only_preferences c"
    by (simp add: blocked_page_facts consented_examples)
  note f1 = consent_change_forgets [OF blocked_page_facts(1) n1, where rnd = no_random and now = 1]
  have n2: "\<forall>(n, c) \<in> set (blockedScripts ?s1). \<not> consented also_analytics c"
    by (simp add: f1)
  note f2 = consent_change_forgets [OF f1(4) n2, where rnd = no_random and now = 2]
  note k2 = consent_change_kept [OF f1(4), where rnd = no_random and now = 2
      and d = also_analytics]
  have g0: "gate_of (heap blocked_page 0) = Blocked"
    by (simp add: blocked_page_facts gate_of_def script_type_def getAttribute_def)
  have h: "heap ?s2 = heap blocked_page"
    by (simp add: f2 f1)
  have "has_consent ?s2 ''analytics''"
    by (simp add: has_consent_def k2(4) consented_examples)
  moreover have "gate_of (heap ?s2 0) = Blocked"
    by (simp add: h g0)
  moreover have "parentNode (heap ?s2 0)"
    by (simp add: h blocked_page_facts)
  moreover have "next_node ?s2 = 1"
    by (simp add: f2 f1 blocked_page_facts)
  moreover have "blockedScripts ?s2 = []"
    by (rule f2)
  ultimately show ?thesis
    unfolding run using g0 blocked_page_facts(5) by (intro conjI)
qed

text \<open>
  When the same grant is the first consent change after the script was blocked, the
  placeholder is replaced by an element in executable form with the other attributes
  and the text of the original.
\<close>

lemma copy_attributes_blocked:
  "copy_attributes [(''src'', ''analytics.js''), (''data-category'', ''analytics''),
      (''type'', ''text/plain''), (''data-blocked'', ''true'')]
   = [(''src'', ''analytics.js''), (''data-category'', ''analytics'')]"
  by (simp add: copy_attributes_def)

lemma first_grant_activates:
  "heap (consent_change no_random 2 also_analytics blocked_page) 1 =
     \<lparr>attributes = [(''src'', ''analytics.js''), (''data-category'', ''analytics'')],
      textContent = ''track()'', parentNode = True\<rparr>"
  "gate_of (heap (consent_change no_random 2 also_analytics blocked_page) 1) = Active"
  "\<not> parentNode (heap (consent_change no_random 2 also_analytics blocked_page) 0)"
  "executed (effects (consent_change no_random 2 also_analytics blocked_page)) = [(0, ''analytics'')]"
proof -
  let ?b = "before_apply no_random 2 also_analytics blocked_page"
  let ?c = "\<lparr>cr_state = also_analytics, cr_timestamp = 2, cr_version = version\<rparr>"
  let ?new = "\<lparr>attributes = [(''src'', ''analytics.js''), (''data-category'', ''analytics'')],
      textContent = ''track()'', parentNode = True\<rparr>"
  let ?s2 = "emit (ScriptExecuted 0 1 ''analytics'')
      (?b\<lparr>heap := (heap ?b)(0 := (heap ?b 0)\<lparr>parentNode := False\<rparr>, 1 := ?new),
          next_node := 2, pending := [1]\<rparr>)"
  have c: "consent ?b = Some ?c"
    by (simp add: before_apply_frame)
  have u: "unblock_each (blockedScripts ?b) also_analytics ?b = (None, ?s2)"
    by (simp add: before_apply_frame blocked_page_facts consented_examples script_type_def
        getAttribute_def copy_attributes_blocked Let_def emit_def)
  have sv: "snd (saveConsent no_random 2 also_analytics blocked_page) =
      emit (Dispatched ''cmp:consent-changed'' also_analytics) (?s2\<lparr>blockedScripts := []\<rparr>)"
    by (simp add: saveConsent_apply applyConsent_unblock [OF c] u)
  define s3 where
    "s3 = emit (Dispatched ''cmp:consent-changed'' also_analytics) (?s2\<lparr>blockedScripts := []\<rparr>)"
  have hc: "has_consent s3 ''analytics''"
    by (simp add: s3_def has_consent_def emit_def before_apply_frame consented_examples)
  have h1: "heap s3 (Suc 0) = ?new" and h0: "\<not> parentNode (heap s3 0)" and p3: "pending s3 = [1]"
    and e3: "effects s3 = effects ?b @ [ScriptExecuted 0 1 ''analytics'',
        Dispatched ''cmp:consent-changed'' also_analytics]"
    by (simp_all add: s3_def emit_def)
  have hs: "handleScript (Suc 0) s3 = s3"
    unfolding handleScript_def h1 using hc
    by (simp add: getAttribute_def script_type_def)
  have "deliver s3 = (handleScript (Suc 0) s3)\<lparr>pending := []\<rparr>"
    by (simp add: deliver_def p3)
  then have dl: "deliver s3 = s3\<lparr>pending := []\<rparr>"
    by (simp only: hs)
  have cc: "consent_change no_random 2 also_analytics blocked_page = s3\<lparr>pending := []\<rparr>"
    unfolding consent_change_def updateConsent_def sv s3_def [symmetric] by (rule dl)
  show "heap (consent_change no_random 2 also_analytics blocked_page) 1 = ?new"
    by (simp add: cc h1)
  then show "gate_of (heap (consent_change no_random 2 also_analytics blocked_page) 1) = Active"
    by (simp add: gate_of_def script_type_def getAttribute_def)
  show "\<not> parentNode (heap (consent_change no_random 2 also_analytics blocked_page) 0)"
    by (simp add: cc h0)
  have "effects ?b = effects blocked_page
     @ [if storage_ok blocked_page then Persisted ?c else PersistFailed]
     @ [log_effect (fst (getSessionId no_random blocked_page)) also_analytics blocked_page]"
    by (rule before_apply_effects)
  then show "executed (effects (consent_change no_random 2 also_analytics blocked_page))
      = [(0, ''analytics'')]"
    by (simp add: cc e3 executed_append blocked_page_facts log_effect_def
        split: option.splits)
qed

section \<open>The session identifier the widget sends\<close>

lemma length_fill_template: "length (fill_template t rnd i) = length t"
  by (induction t rnd i rule: fill_template.induct) simp_all

lemma length_generateId: "length (generateId rnd) = 36"
  by (simp add: generateId_def length_fill_template)

text \<open>
  An identifier made by \<open>generateId\<close> has 36 characters, so \<open>ConsentLogger::log\<close> records
  it as it is.
\<close>

lemma generated_id_logged_unchanged: "logged_session_id env (generateId rnd) = generateId rnd"
  by (simp add: logged_session_id_def length_generateId)

section \<open>Gate monotonicity\<close>


text \<open>A sequence of consent changes, each by a script of its own, is one of the runs.\<close>

lemma consent_changes_run:
  "consent_changes rnd ds s =
     page_run rnd (concat (map (\<lambda>(now, d). [ConsentCall now d, Checkpoint]) ds)) s"
  by (induction rnd ds s rule: consent_changes.induct) (simp_all add: consent_change_def)

subsection \<open>An element the observer is not due to be called for\<close>





subsection \<open>A script the observer is called for without consent for its category\<close>









subsection \<open>A revocation that comes before the observer\<close>




end
